theory Spec2Isabelle
  imports Main
begin

section \<open>testfixtures.logcapture: the data\<close>

text \<open>
  An element of \<open>self.names\<close> is whatever the caller passed: \<open>None\<close>, a string, or
  (when a list of names was passed where a tuple was meant) a whole list.
\<close>

datatype key = KNone | KStr string | KList "string list"

text \<open>The \<open>names\<close> argument of the constructor: a tuple of keys, or any other value.\<close>

datatype names_arg = Tuple "key list" | Other key

text \<open>The loggers of the logging framework: the root logger and the named ones.\<close>

datatype chan = Root | Named string

type_synonym triple = "string \<times> string \<times> string"

text \<open>
  What a failed comparison reports: the index of the first divergence, the expected value
  there and the actual value there (\<open>None\<close> where that sequence has already ended).
\<close>

datatype divergence = Diverge nat "triple option" "triple option"

datatype error = TypeError | KeyError | AssertionError divergence

text \<open>
  A handler on a logger is an object: a \<open>LogCapture\<close>, named by its identity (a number), or
  a handler of another class.
\<close>

datatype handler = LogCapture nat | Foreign nat

record logger =
  logger_level :: int
  logger_handlers :: "handler list"

text \<open>
  The objects passed as message arguments are mutable and live outside the capture; \<open>heap\<close>
  gives, for each such object, the text it prints as now. A log record is an object of the
  logging library with the attributes \<open>name\<close> and \<open>levelname\<close> and the method
  \<open>getMessage()\<close>, which formats the message with the arguments as they are when it is called.
\<close>

type_synonym heap = "nat \<Rightarrow> string"

record LogRecord =
  name :: string
  levelname :: string
  getMessage :: "heap \<Rightarrow> string"

text \<open>The instance attributes of a \<open>LogCapture\<close>.\<close>

record capture =
  names :: "key list"
  level :: int
  oldlevels :: "key \<rightharpoonup> int"
  oldhandlers :: "key \<rightharpoonup> handler list"
  records :: "LogRecord list"

text \<open>
  The state the module works on. \<open>objs\<close> holds the \<open>LogCapture\<close> objects constructed
  so far (identities below \<open>nobjs\<close>). \<open>instances\<close> and \<open>atexit_setup\<close> are the class attributes,
  \<open>atexit_registered\<close> counts the calls of \<open>atexit.register\<close>, \<open>handlers_dict\<close> and
  \<open>handlerList\<close> are \<open>logging._handlers\<close> and \<open>logging._handlerList\<close>.
\<close>

record world =
  loggers :: "chan \<Rightarrow> logger"
  handlers_dict :: "handler set"
  handlerList :: "handler list"
  instances :: "nat set"
  atexit_setup :: bool
  atexit_registered :: nat
  objs :: "nat \<Rightarrow> capture"
  nobjs :: nat
  heap :: heap

section \<open>The logging library, as far as the module uses it\<close>

text \<open>
  \<open>logging.getLogger(name)\<close>, as in the Python versions the module was written for: a
  false name (\<open>None\<close>, the empty string) gives the root logger, another string the logger
  of that name. A list is no logger name and cannot be a dictionary key either: the loop
  body that looks it up raises \<open>TypeError\<close>.
\<close>

fun getLogger :: "key \<Rightarrow> error + chan" where
  "getLogger KNone = Inr Root"
| "getLogger (KStr s) = Inr (if s = [] then Root else Named s)"
| "getLogger (KList l) = Inl TypeError"

section \<open>LogCapture\<close>

definition clear :: "nat \<Rightarrow> world \<Rightarrow> world" where
  "clear self w = w\<lparr>objs := (objs w)(self := (objs w self)\<lparr>records := []\<rparr>)\<rparr>"

definition emit :: "nat \<Rightarrow> LogRecord \<Rightarrow> world \<Rightarrow> world" where
  "emit self r w =
     w\<lparr>objs := (objs w)(self := (objs w self)\<lparr>records := records (objs w self) @ [r]\<rparr>)\<rparr>"

text \<open>
  One pass of the loop of \<open>install\<close>. A pass that raises changes nothing itself, but the
  passes before it have changed their loggers by then; the result of a call that raises is
  the error alone, and no statement below is about the state an exception leaves behind.
\<close>

definition install_step :: "nat \<Rightarrow> key \<Rightarrow> world \<Rightarrow> error + world" where
  "install_step self n w =
     (case getLogger n of
        Inl e \<Rightarrow> Inl e
      | Inr ch \<Rightarrow>
          let lg = loggers w ch;
              c = objs w self;
              c' = c\<lparr>oldlevels := (oldlevels c)(n \<mapsto> logger_level lg),
                     oldhandlers := (oldhandlers c)(n \<mapsto> logger_handlers lg)\<rparr>
          in Inr (w\<lparr>objs := (objs w)(self := c'),
                    loggers := (loggers w)
                      (ch := \<lparr>logger_level = level c, logger_handlers = [LogCapture self]\<rparr>)\<rparr>))"

fun install_loop :: "nat \<Rightarrow> key list \<Rightarrow> world \<Rightarrow> error + world" where
  "install_loop self [] w = Inr w"
| "install_loop self (n # ns) w =
     (case install_step self n w of Inl e \<Rightarrow> Inl e | Inr w' \<Rightarrow> install_loop self ns w')"

definition install :: "nat \<Rightarrow> world \<Rightarrow> error + world" where
  "install self w =
     (case install_loop self (names (objs w self)) w of
        Inl e \<Rightarrow> Inl e
      | Inr w1 \<Rightarrow>
          let w2 = w1\<lparr>instances := insert self (instances w1)\<rparr>
          in Inr (if atexit_setup w2 then w2
                  else w2\<lparr>atexit_registered := Suc (atexit_registered w2),
                          atexit_setup := True\<rparr>))"

text \<open>One pass of the loop of \<open>uninstall\<close>; a name that was never saved raises \<open>KeyError\<close>.\<close>

definition uninstall_step :: "nat \<Rightarrow> key \<Rightarrow> world \<Rightarrow> error + world" where
  "uninstall_step self n w =
     (case getLogger n of
        Inl e \<Rightarrow> Inl e
      | Inr ch \<Rightarrow>
          (case oldlevels (objs w self) n of
             None \<Rightarrow> Inl KeyError
           | Some l \<Rightarrow>
               (case oldhandlers (objs w self) n of
                  None \<Rightarrow> Inl KeyError
                | Some hs \<Rightarrow>
                    Inr (w\<lparr>loggers := (loggers w)
                              (ch := \<lparr>logger_level = l, logger_handlers = hs\<rparr>),
                            handlers_dict := handlers_dict w - {LogCapture self},
                            handlerList := remove1 (LogCapture self) (handlerList w)\<rparr>))))"

fun uninstall_loop :: "nat \<Rightarrow> key list \<Rightarrow> world \<Rightarrow> error + world" where
  "uninstall_loop self [] w = Inr w"
| "uninstall_loop self (n # ns) w =
     (case uninstall_step self n w of Inl e \<Rightarrow> Inl e | Inr w' \<Rightarrow> uninstall_loop self ns w')"

definition uninstall :: "nat \<Rightarrow> world \<Rightarrow> error + world" where
  "uninstall self w =
     (if self \<in> instances w then
        (case uninstall_loop self (names (objs w self)) w of
           Inl e \<Rightarrow> Inl e
         | Inr w1 \<Rightarrow> Inr (w1\<lparr>instances := instances w1 - {self}\<rparr>))
      else Inr w)"

text \<open>
  \<open>uninstall_all\<close> walks \<open>tuple(cls.instances)\<close>. A set has no iteration order of its own,
  so the order is an argument: any list of the registered instances.
\<close>

fun uninstall_all :: "nat list \<Rightarrow> world \<Rightarrow> error + world" where
  "uninstall_all [] w = Inr w"
| "uninstall_all (i # order) w =
     (case uninstall i w of Inl e \<Rightarrow> Inl e | Inr w' \<Rightarrow> uninstall_all order w')"

text \<open>The constructor: \<open>names\<close> is kept when it is a tuple and wrapped into one otherwise.\<close>

fun init_names :: "names_arg \<Rightarrow> key list" where
  "init_names (Tuple ks) = ks"
| "init_names (Other k) = [k]"

text \<open>
  The object built before \<open>install\<close> is considered: \<open>logging.Handler.__init__\<close> enters the
  new handler in the library's bookkeeping, then the attributes are set and the buffer cleared.
\<close>

definition allocate :: "names_arg \<Rightarrow> int \<Rightarrow> world \<Rightarrow> nat \<times> world" where
  "allocate a lvl w =
     (let self = nobjs w;
          w1 = w\<lparr>objs := (objs w)
                   (self := \<lparr>names = init_names a, level = lvl, oldlevels = Map.empty,
                             oldhandlers = Map.empty, records = []\<rparr>),
                 nobjs := Suc self,
                 handlers_dict := insert (LogCapture self) (handlers_dict w),
                 handlerList := LogCapture self # handlerList w\<rparr>
      in (self, clear self w1))"

definition init :: "names_arg \<Rightarrow> bool \<Rightarrow> int \<Rightarrow> world \<Rightarrow> error + nat \<times> world" where
  "init a inst lvl w =
     (let (self, w1) = allocate a lvl w
      in if inst then (case install self w1 of Inl e \<Rightarrow> Inl e | Inr w2 \<Rightarrow> Inr (self, w2))
         else Inr (self, w1))"

text \<open>The triples \<open>actual()\<close> yields when it is walked to its end.\<close>

definition entry :: "heap \<Rightarrow> LogRecord \<Rightarrow> triple" where
  "entry h r = (name r, levelname r, getMessage r h)"

definition actual :: "nat \<Rightarrow> world \<Rightarrow> triple list" where
  "actual self w = map (entry (heap w)) (records (objs w self))"

fun join :: "string \<Rightarrow> string list \<Rightarrow> string" where
  "join sep [] = []"
| "join sep [x] = x"
| "join sep (x # y # zs) = x @ sep @ join sep (y # zs)"

definition str :: "nat \<Rightarrow> world \<Rightarrow> string" where
  "str self w =
     (if records (objs w self) = [] then ''No logging captured''
      else join [CHR 0x0A]
             (map (\<lambda>(n, l, m). n @ '' '' @ l @ [CHR 0x0A] @ ''  '' @ m) (actual self w)))"

text \<open>
  Modelled from the spec: \<open>testfixtures.comparison.compare\<close> is not among the sources. The
  spec has it take two sequences of triples and return success, or a failure that names the
  first point of divergence (index, expected value, actual value), comparing the triples
  themselves and not descending into them.
\<close>

fun first_diff :: "nat \<Rightarrow> triple list \<Rightarrow> triple list \<Rightarrow> divergence option" where
  "first_diff i [] [] = None"
| "first_diff i [] (y # ys) = Some (Diverge i None (Some y))"
| "first_diff i (x # xs) [] = Some (Diverge i (Some x) None)"
| "first_diff i (x # xs) (y # ys) =
     (if x = y then first_diff (Suc i) xs ys else Some (Diverge i (Some x) (Some y)))"

definition compare :: "triple list \<Rightarrow> triple list \<Rightarrow> error + unit" where
  "compare x y = (case first_diff 0 x y of None \<Rightarrow> Inr () | Some d \<Rightarrow> Inl (AssertionError d))"

definition check :: "nat \<Rightarrow> triple list \<Rightarrow> world \<Rightarrow> error + unit" where
  "check self expected w = compare expected (actual self w)"

text \<open>
  The context manager. \<open>__exit__\<close> is given the exception that left the block, if any, and
  returns nothing, so that exception goes on to the caller.
\<close>

definition enter :: "nat \<Rightarrow> world \<Rightarrow> nat \<times> world" where
  "enter self w = (self, w)"

definition exit :: "nat \<Rightarrow> string option \<Rightarrow> world \<Rightarrow> error + world" where
  "exit self exc w = uninstall self w"

text \<open>
  A \<open>with\<close> statement over an instance: the block gets what \<open>__enter__\<close> returned and ends
  normally (\<open>None\<close>) or with an exception, in some state; \<open>__exit__\<close> runs either way.
\<close>

definition with_block ::
  "nat \<Rightarrow> (nat \<Rightarrow> world \<Rightarrow> string option \<times> world) \<Rightarrow> world \<Rightarrow> error + string option \<times> world"
where
  "with_block self body w =
     (let (v, w0) = enter self w;
          (out, w1) = body v w0
      in case exit self out w1 of Inl e \<Rightarrow> Inl e | Inr w2 \<Rightarrow> Inr (out, w2))"

text \<open>The element of a sequence at an index, if the sequence reaches that far.\<close>

definition at_index :: "'a list \<Rightarrow> nat \<Rightarrow> 'a option" where
  "at_index xs k = (if k < length xs then Some (xs ! k) else None)"

section \<open>Concrete states\<close>

text \<open>
  The process before any capture exists: the root logger at \<open>WARNING\<close>, no handler
  anywhere, an empty registry.
\<close>

definition startup :: world where
  "startup =
     \<lparr>loggers = (\<lambda>ch. \<lparr>logger_level = (if ch = Root then 30 else 0), logger_handlers = []\<rparr>),
      handlers_dict = {}, handlerList = [], instances = {}, atexit_setup = False,
      atexit_registered = 0,
      objs = (\<lambda>_. \<lparr>names = [], level = 0, oldlevels = Map.empty, oldhandlers = Map.empty,
                    records = []\<rparr>),
      nobjs = 0, heap = (\<lambda>_. [])\<rparr>"

definition retry :: LogRecord where
  "retry = \<lparr>name = ''app.db'', levelname = ''WARNING'', getMessage = (\<lambda>_. ''connection retry'')\<rparr>"

definition failed :: LogRecord where
  "failed = \<lparr>name = ''app.db'', levelname = ''ERROR'', getMessage = (\<lambda>_. ''connection failed'')\<rparr>"

text \<open>A capture (object 0) built on \<open>app.db\<close> without installing it.\<close>

definition built :: world where
  "built = snd (allocate (Other (KStr ''app.db'')) 1 startup)"

text \<open>The same capture after it has received the two records.\<close>

definition logged :: world where
  "logged = emit 0 failed (emit 0 retry built)"

text \<open>
  Other code changing an object that was passed as a message argument: the object at \<open>a\<close>
  now prints as \<open>v\<close>.
\<close>

definition mutate :: "nat \<Rightarrow> string \<Rightarrow> world \<Rightarrow> world" where
  "mutate a v w = w\<lparr>heap := (heap w)(a := v)\<rparr>"

text \<open>
  The record of \<open>logging.getLogger('app.db').info('got %s', x)\<close>, where \<open>x\<close> is the object
  at address 0, and a state in which \<open>x\<close> is the list \<open>[1]\<close>.
\<close>

definition got :: LogRecord where
  "got = \<lparr>name = ''app.db'', levelname = ''INFO'', getMessage = (\<lambda>h. ''got '' @ h 0)\<rparr>"

definition holding :: world where
  "holding = mutate 0 ''[1]'' built"

section \<open>Conditions on keys and instances\<close>

text \<open>A key that names a logger: \<open>None\<close> or a string.\<close>

fun usable :: "key \<Rightarrow> bool" where
  "usable (KList l) = False"
| "usable k = True"

text \<open>
  An instance that \<open>uninstall\<close> can restore: each of its names is a logger name and has an
  entry in both of the instance's dictionaries.
\<close>

definition restorable :: "world \<Rightarrow> nat \<Rightarrow> bool" where
  "restorable w self =
     (\<forall>k \<in> set (names (objs w self)).
        usable k \<and> oldlevels (objs w self) k \<noteq> None \<and> oldhandlers (objs w self) k \<noteq> None)"

section \<open>Sequencing and further concrete states\<close>

text \<open>One call after another: the second runs in the state the first returned.\<close>

definition and_then :: "error + 'a \<Rightarrow> ('a \<Rightarrow> error + 'b) \<Rightarrow> error + 'b" where
  "and_then r f = (case r of Inl e \<Rightarrow> Inl e | Inr x \<Rightarrow> f x)"

text \<open>
  A process in which the logger \<open>app.db\<close> has been configured by hand: level \<open>ERROR\<close> and
  one handler of some other kind, the object 7.
\<close>

definition configured :: world where
  "configured =
     startup\<lparr>loggers := (loggers startup)
       (Named ''app.db'' := \<lparr>logger_level = 40, logger_handlers = [Foreign 7]\<rparr>)\<rparr>"

text \<open>There, a capture (object 0) built on \<open>app.db\<close> and not yet installed.\<close>

definition single :: world where
  "single = snd (allocate (Other (KStr ''app.db'')) 1 configured)"

text \<open>The same with the name given twice: \<open>LogCapture(('app.db', 'app.db'), install=False)\<close>.\<close>

definition doubled :: world where
  "doubled = snd (allocate (Tuple [KStr ''app.db'', KStr ''app.db'']) 1 configured)"

text \<open>
  Among the registered instances, name \<open>k\<close> of instance \<open>i\<close> is the only one that refers to
  the logger \<open>ch\<close>.
\<close>

definition sole_user :: "world \<Rightarrow> nat \<Rightarrow> key \<Rightarrow> chan \<Rightarrow> bool" where
  "sole_user w i k ch =
     (\<forall>j \<in> instances w. \<forall>k' \<in> set (names (objs w j)). getLogger k' = Inr ch \<longrightarrow> j = i \<and> k' = k)"

text \<open>
  Two captures installed at construction, object 0 on \<open>app.db\<close> and object 1 on \<open>web\<close>.
\<close>

definition both :: world where
  "both =
     (case and_then (init (Other (KStr ''app.db'')) True 1 configured)
             (\<lambda>(i, w). init (Other (KStr ''web'')) True 1 w) of
        Inl e \<Rightarrow> configured
      | Inr (i, w) \<Rightarrow> w)"

section \<open>Sequences of calls\<close>

text \<open>
  The calls a program can make. \<open>UninstallAll\<close> carries the order in which the registry
  happens to be walked; \<open>Exit\<close> carries the exception that left the block, if any.
\<close>

datatype op =
    Construct names_arg bool int
  | Install nat
  | Uninstall nat
  | UninstallAll "nat list"
  | Clear nat
  | Emit nat LogRecord
  | Enter nat
  | Exit nat "string option"

fun perform :: "op \<Rightarrow> world \<Rightarrow> error + world" where
  "perform (Construct a inst lvl) w = and_then (init a inst lvl w) (\<lambda>(i, w'). Inr w')"
| "perform (Install i) w = install i w"
| "perform (Uninstall i) w = uninstall i w"
| "perform (UninstallAll order) w = uninstall_all order w"
| "perform (Clear i) w = Inr (clear i w)"
| "perform (Emit i r) w = Inr (emit i r w)"
| "perform (Enter i) w = Inr (snd (enter i w))"
| "perform (Exit i exc) w = exit i exc w"

fun run :: "op list \<Rightarrow> world \<Rightarrow> error + world" where
  "run [] w = Inr w"
| "run (c # cs) w = and_then (perform c w) (run cs)"

text \<open>
  The claim's notion of being installed, read off the loggers: the instance has swapped
  itself into its logging channels and they have not been restored, that is, it has a
  channel and on each of its channels it is the handler list.
\<close>

definition swapped_in :: "world \<Rightarrow> nat \<Rightarrow> bool" where
  "swapped_in w i =
     (names (objs w i) \<noteq> [] \<and>
      list_all
        (\<lambda>k. case getLogger k of
               Inl e \<Rightarrow> False
             | Inr ch \<Rightarrow> logger_handlers (loggers w ch) = [LogCapture i])
        (names (objs w i)))"

text \<open>A logger that a name of a registered instance refers to.\<close>

definition in_use :: "world \<Rightarrow> chan \<Rightarrow> bool" where
  "in_use w ch = (\<exists>j \<in> instances w. \<exists>k \<in> set (names (objs w j)). getLogger k = Inr ch)"

text \<open>The loggers these names refer to are in use by no registered instance.\<close>

definition unclaimed :: "world \<Rightarrow> key list \<Rightarrow> bool" where
  "unclaimed w ks = (\<forall>k \<in> set ks. \<forall>ch. getLogger k = Inr ch \<longrightarrow> \<not> in_use w ch)"

text \<open>Names an instance can be built on: at least one, each a logger name, no logger twice.\<close>

definition well_named :: "key list \<Rightarrow> bool" where
  "well_named ks = (ks \<noteq> [] \<and> list_all usable ks \<and> distinct (map getLogger ks))"

text \<open>
  Orderly use. A call is made on an object that exists; instances are built on well-formed
  names; an instance is installed only while it is not installed, and only on loggers that
  no installed instance uses; \<open>uninstall_all\<close> walks the registry as it is.
\<close>

fun orderly :: "op \<Rightarrow> world \<Rightarrow> bool" where
  "orderly (Construct a inst lvl) w =
     (well_named (init_names a) \<and> (inst \<longrightarrow> unclaimed w (init_names a)))"
| "orderly (Install i) w =
     (i < nobjs w \<and> i \<notin> instances w \<and> unclaimed w (names (objs w i)))"
| "orderly (Uninstall i) w = (i < nobjs w)"
| "orderly (UninstallAll order) w = (set order = instances w \<and> distinct order)"
| "orderly (Clear i) w = (i < nobjs w)"
| "orderly (Emit i r) w = (i < nobjs w)"
| "orderly (Enter i) w = (i < nobjs w)"
| "orderly (Exit i exc) w = (i < nobjs w)"

fun orderly_run :: "op list \<Rightarrow> world \<Rightarrow> bool" where
  "orderly_run [] w = True"
| "orderly_run (c # cs) w =
     (orderly c w \<and> (case perform c w of Inl e \<Rightarrow> True | Inr w' \<Rightarrow> orderly_run cs w'))"

text \<open>
  What every state reached by calls satisfies: the registered instances exist and were
  prepared by \<open>install\<close>, and the existing instances have logger names only.
\<close>

definition sound :: "world \<Rightarrow> bool" where
  "sound w =
     ((\<forall>i \<in> instances w. i < nobjs w \<and> restorable w i) \<and>
      (\<forall>i < nobjs w. \<forall>k \<in> set (names (objs w i)). usable k))"

text \<open>
  What every state reached by orderly use satisfies besides: the existing instances are well
  named; each logger of a registered instance has that instance's level and that instance
  as its handler list; a capture found on a logger is registered and the logger is its own;
  and no handler list saved by a registered instance holds a capture.
\<close>

definition tidy :: "world \<Rightarrow> bool" where
  "tidy w =
     (sound w \<and>
      (\<forall>i < nobjs w. well_named (names (objs w i))) \<and>
      (\<forall>i \<in> instances w. \<forall>k \<in> set (names (objs w i)). \<forall>ch. getLogger k = Inr ch \<longrightarrow>
         loggers w ch = \<lparr>logger_level = level (objs w i), logger_handlers = [LogCapture i]\<rparr>) \<and>
      (\<forall>ch i. LogCapture i \<in> set (logger_handlers (loggers w ch)) \<longrightarrow>
         i \<in> instances w \<and> (\<exists>k \<in> set (names (objs w i)). getLogger k = Inr ch)) \<and>
      (\<forall>i \<in> instances w. \<forall>k \<in> set (names (objs w i)). \<forall>hs.
         oldhandlers (objs w i) k = Some hs \<longrightarrow> (\<forall>j. LogCapture j \<notin> set hs)))"

text \<open>A short orderly session: two captures, one installed at construction.\<close>

definition session :: "op list" where
  "session =
     [Construct (Other (KStr ''app.db'')) True 1,
      Construct (Other (KStr ''web'')) False 1,
      Emit 0 retry,
      Uninstall 0,
      Install 1,
      Clear 1]"

text \<open>
  The same session with \<open>install()\<close> called a second time on the installed capture, which is
  then uninstalled.
\<close>

definition reinstalling :: "op list" where
  "reinstalling = session @ [Install 1, Uninstall 1]"

text \<open>Two captures installed at construction on the same logger \<open>app.db\<close>.\<close>

definition shared :: world where
  "shared =
     (case and_then (init (Other (KStr ''app.db'')) True 1 configured)
             (\<lambda>(i, w). init (Other (KStr ''app.db'')) True 1 w) of
        Inl e \<Rightarrow> configured
      | Inr (i, w) \<Rightarrow> w)"

text \<open>A capture built and installed on no name at all: \<open>LogCapture(())\<close>.\<close>

definition nameless :: world where
  "nameless = (case init (Tuple []) True 1 configured of Inl e \<Rightarrow> configured | Inr (i, w) \<Rightarrow> w)"

text \<open>A block that logs one record and then fails with an exception.\<close>

definition failing_block :: "nat \<Rightarrow> world \<Rightarrow> string option \<times> world" where
  "failing_block v w = (Some ''ValueError'', emit v retry w)"

section \<open>Comparison\<close>

lemma at_index_simps [simp]:
  "at_index [] k = None"
  "at_index (x # xs) 0 = Some x"
  "at_index (x # xs) (Suc k) = at_index xs k"
  by (simp_all add: at_index_def)

lemma first_diff_None: "first_diff i xs ys = None \<longleftrightarrow> xs = ys"
  by (induction i xs ys rule: first_diff.induct) auto

lemma first_diff_Some:
  "first_diff i xs ys = Some (Diverge k a b) \<Longrightarrow>
     i \<le> k \<and> take (k - i) xs = take (k - i) ys \<and>
     a = at_index xs (k - i) \<and> b = at_index ys (k - i) \<and> a \<noteq> b"
proof (induction i xs ys rule: first_diff.induct)
  case (4 i x xs y ys)
  show ?case
  proof (cases "x = y")
    case True
    from 4(2) True have "first_diff (Suc i) xs ys = Some (Diverge k a b)" by simp
    from 4(1) [OF True this]
    have ih: "Suc i \<le> k \<and> take (k - Suc i) xs = take (k - Suc i) ys \<and>
      a = at_index xs (k - Suc i) \<and> b = at_index ys (k - Suc i) \<and> a \<noteq> b" .
    then have m: "k - i = Suc (k - Suc i)" by arith
    have "at_index (x # xs) (k - i) = at_index xs (k - Suc i)"
         "at_index (y # ys) (k - i) = at_index ys (k - Suc i)"
         "take (k - i) (x # xs) = x # take (k - Suc i) xs"
         "take (k - i) (y # ys) = y # take (k - Suc i) ys"
      by (simp_all add: m)
    with ih True show ?thesis by (metis Suc_leD)
  next
    case False
    with 4 show ?thesis by auto
  qed
qed auto

lemma compare_Inr: "compare x y = Inr () \<longleftrightarrow> x = y"
  using first_diff_None [of 0 x y] by (auto simp: compare_def split: option.splits)

section \<open>What install and uninstall leave alone\<close>

lemma install_step_frame:
  assumes "install_step self n w = Inr w'"
  shows "instances w' = instances w \<and> heap w' = heap w \<and> nobjs w' = nobjs w \<and>
    atexit_setup w' = atexit_setup w \<and> atexit_registered w' = atexit_registered w \<and>
    handlers_dict w' = handlers_dict w \<and> handlerList w' = handlerList w \<and>
    names (objs w' i) = names (objs w i) \<and> level (objs w' i) = level (objs w i) \<and>
    records (objs w' i) = records (objs w i)"
  using assms by (auto simp: install_step_def Let_def split: sum.splits)

lemma install_loop_frame:
  assumes "install_loop self ns w = Inr w'"
  shows "instances w' = instances w \<and> heap w' = heap w \<and> nobjs w' = nobjs w \<and>
    atexit_setup w' = atexit_setup w \<and> atexit_registered w' = atexit_registered w \<and>
    handlers_dict w' = handlers_dict w \<and> handlerList w' = handlerList w \<and>
    names (objs w' i) = names (objs w i) \<and> level (objs w' i) = level (objs w i) \<and>
    records (objs w' i) = records (objs w i)"
  using assms
proof (induction ns arbitrary: w)
  case Nil
  then show ?case by simp
next
  case (Cons n ns)
  from Cons.prems(1) obtain w1 where s: "install_step self n w = Inr w1"
    and l: "install_loop self ns w1 = Inr w'"
    by (auto split: sum.splits)
  from Cons.IH [OF l] install_step_frame [OF s, of i] show ?case by simp
qed

lemma install_unfold:
  assumes "install self w = Inr w'"
  obtains w1 where "install_loop self (names (objs w self)) w = Inr w1"
    and "w' = (if atexit_setup w1 then w1\<lparr>instances := insert self (instances w1)\<rparr>
               else w1\<lparr>instances := insert self (instances w1),
                       atexit_registered := Suc (atexit_registered w1),
                       atexit_setup := True\<rparr>)"
  using assms by (auto simp: install_def Let_def split: sum.splits if_splits)

lemma install_frame:
  assumes "install self w = Inr w'"
  shows "instances w' = insert self (instances w) \<and> heap w' = heap w \<and> nobjs w' = nobjs w \<and>
    atexit_setup w' \<and> handlers_dict w' = handlers_dict w \<and> handlerList w' = handlerList w \<and>
    names (objs w' i) = names (objs w i) \<and> level (objs w' i) = level (objs w i) \<and>
    records (objs w' i) = records (objs w i)"
proof -
  from assms obtain w1 where l: "install_loop self (names (objs w self)) w = Inr w1"
    and w': "w' = (if atexit_setup w1 then w1\<lparr>instances := insert self (instances w1)\<rparr>
               else w1\<lparr>instances := insert self (instances w1),
                       atexit_registered := Suc (atexit_registered w1),
                       atexit_setup := True\<rparr>)"
    by (rule install_unfold)
  from install_loop_frame [OF l, of i] w' show ?thesis by simp
qed

lemma uninstall_step_frame:
  assumes "uninstall_step self n w = Inr w'"
  shows "instances w' = instances w \<and> heap w' = heap w \<and> nobjs w' = nobjs w \<and>
    atexit_setup w' = atexit_setup w \<and> atexit_registered w' = atexit_registered w \<and>
    objs w' = objs w"
  using assms by (auto simp: uninstall_step_def split: sum.splits option.splits)

lemma uninstall_loop_frame:
  assumes "uninstall_loop self ns w = Inr w'"
  shows "instances w' = instances w \<and> heap w' = heap w \<and> nobjs w' = nobjs w \<and>
    atexit_setup w' = atexit_setup w \<and> atexit_registered w' = atexit_registered w \<and>
    objs w' = objs w"
  using assms
proof (induction ns arbitrary: w)
  case Nil
  then show ?case by simp
next
  case (Cons n ns)
  from Cons.prems(1) obtain w1 where s: "uninstall_step self n w = Inr w1"
    and l: "uninstall_loop self ns w1 = Inr w'"
    by (auto split: sum.splits)
  from Cons.IH [OF l] uninstall_step_frame [OF s] show ?case by simp
qed

lemma uninstall_frame:
  assumes "uninstall self w = Inr w'"
  shows "instances w' = instances w - {self} \<and> heap w' = heap w \<and> nobjs w' = nobjs w \<and>
    atexit_setup w' = atexit_setup w \<and> atexit_registered w' = atexit_registered w \<and>
    objs w' = objs w"
proof (cases "self \<in> instances w")
  case True
  with assms obtain w1 where l: "uninstall_loop self (names (objs w self)) w = Inr w1"
    and w': "w' = w1\<lparr>instances := instances w1 - {self}\<rparr>"
    by (auto simp: uninstall_def split: sum.splits)
  from uninstall_loop_frame [OF l] w' show ?thesis by simp
next
  case False
  with assms have "w' = w" by (simp add: uninstall_def)
  with False show ?thesis by simp
qed

section \<open>The buffer\<close>

lemma records_emits:
  "records (objs (fold (emit self) rs w) self) = records (objs w self) @ rs"
  by (induction rs arbitrary: w) (simp_all add: emit_def)

lemma heap_emits: "heap (fold (emit self) rs w) = heap w"
  by (induction rs arbitrary: w) (simp_all add: emit_def)

lemma actual_emits:
  "actual self (fold (emit self) rs w) = actual self w @ map (entry (heap w)) rs"
  by (simp add: actual_def records_emits heap_emits)

lemma actual_logged:
  "actual 0 logged =
     [(''app.db'', ''WARNING'', ''connection retry''),
      (''app.db'', ''ERROR'', ''connection failed'')]"
  by (simp add: logged_def built_def allocate_def startup_def clear_def emit_def actual_def
      entry_def retry_def failed_def Let_def)

section \<open>The loop of install\<close>

lemma usable_getLogger: "usable k \<longleftrightarrow> (\<exists>ch. getLogger k = Inr ch)"
  by (cases k) simp_all

lemma install_step_total: "usable k \<Longrightarrow> \<exists>w'. install_step self k w = Inr w'"
  by (auto simp: install_step_def usable_getLogger Let_def)

lemma install_step_usable: "install_step self k w = Inr w' \<Longrightarrow> usable k"
  by (cases k) (simp_all add: install_step_def)

lemma install_step_objs:
  assumes "install_step self k w = Inr w'" and "getLogger k = Inr ch"
  shows "objs w' = (objs w)(self := (objs w self)
           \<lparr>oldlevels := (oldlevels (objs w self))(k \<mapsto> logger_level (loggers w ch)),
            oldhandlers := (oldhandlers (objs w self))(k \<mapsto> logger_handlers (loggers w ch))\<rparr>)"
    and "loggers w' = (loggers w)
           (ch := \<lparr>logger_level = level (objs w self), logger_handlers = [LogCapture self]\<rparr>)"
  using assms by (auto simp: install_step_def Let_def)

lemma install_loop_total:
  "\<forall>k \<in> set ks. usable k \<Longrightarrow> \<exists>w'. install_loop self ks w = Inr w'"
proof (induction ks arbitrary: w)
  case Nil
  show ?case by simp
next
  case (Cons k ks)
  then obtain w1 where "install_step self k w = Inr w1"
    using install_step_total [of k self w] by auto
  with Cons show ?case by simp
qed

lemma install_loop_usable:
  "install_loop self ks w = Inr w' \<Longrightarrow> \<forall>k \<in> set ks. usable k"
proof (induction ks arbitrary: w)
  case Nil
  show ?case by simp
next
  case (Cons k ks)
  from Cons.prems(1) obtain w1 where s: "install_step self k w = Inr w1"
    and l: "install_loop self ks w1 = Inr w'"
    by (auto split: sum.splits)
  from install_step_usable [OF s] Cons.IH [OF l] show ?case by simp
qed

text \<open>Other objects are not touched by the loop; saved entries are only added or replaced.\<close>

lemma install_loop_others:
  "install_loop self ks w = Inr w' \<Longrightarrow> i \<noteq> self \<Longrightarrow> objs w' i = objs w i"
proof (induction ks arbitrary: w)
  case Nil
  then show ?case by simp
next
  case (Cons k ks)
  from Cons.prems(1) obtain w1 where s: "install_step self k w = Inr w1"
    and l: "install_loop self ks w1 = Inr w'"
    by (auto split: sum.splits)
  from install_step_usable [OF s] obtain ch where "getLogger k = Inr ch"
    by (auto simp: usable_getLogger)
  from install_step_objs(1) [OF s this] Cons.prems(2) have "objs w1 i = objs w i" by simp
  with Cons.IH [OF l Cons.prems(2)] show ?case by simp
qed

lemma install_loop_keeps:
  "install_loop self ks w = Inr w' \<Longrightarrow> k \<notin> set ks \<Longrightarrow>
     oldlevels (objs w' self) k = oldlevels (objs w self) k \<and>
     oldhandlers (objs w' self) k = oldhandlers (objs w self) k"
proof (induction ks arbitrary: w)
  case Nil
  then show ?case by simp
next
  case (Cons n ks)
  from Cons.prems(1) obtain w1 where s: "install_step self n w = Inr w1"
    and l: "install_loop self ks w1 = Inr w'"
    by (auto split: sum.splits)
  from install_step_usable [OF s] obtain ch where "getLogger n = Inr ch"
    by (auto simp: usable_getLogger)
  from install_step_objs(1) [OF s this] Cons.prems(2)
  have "oldlevels (objs w1 self) k = oldlevels (objs w self) k \<and>
     oldhandlers (objs w1 self) k = oldhandlers (objs w self) k" by simp
  moreover from Cons.prems(2) have "k \<notin> set ks" by simp
  ultimately show ?case using Cons.IH [OF l] by simp
qed

lemma install_loop_untouched:
  "install_loop self ks w = Inr w' \<Longrightarrow> \<forall>k \<in> set ks. getLogger k \<noteq> Inr ch \<Longrightarrow>
     loggers w' ch = loggers w ch"
proof (induction ks arbitrary: w)
  case Nil
  then show ?case by simp
next
  case (Cons n ks)
  from Cons.prems(1) obtain w1 where s: "install_step self n w = Inr w1"
    and l: "install_loop self ks w1 = Inr w'"
    by (auto split: sum.splits)
  from install_step_usable [OF s] obtain c where c: "getLogger n = Inr c"
    by (auto simp: usable_getLogger)
  with Cons.prems(2) have "c \<noteq> ch" by auto
  with install_step_objs(2) [OF s c] have "loggers w1 ch = loggers w ch" by simp
  moreover from Cons.prems(2) have "\<forall>k \<in> set ks. getLogger k \<noteq> Inr ch" by simp
  ultimately show ?case using Cons.IH [OF l] by simp
qed

lemma install_loop_swapped:
  "install_loop self ks w = Inr w' \<Longrightarrow> \<exists>k \<in> set ks. getLogger k = Inr ch \<Longrightarrow>
     loggers w' ch = \<lparr>logger_level = level (objs w self), logger_handlers = [LogCapture self]\<rparr>"
proof (induction ks arbitrary: w)
  case Nil
  then show ?case by simp
next
  case (Cons n ks)
  from Cons.prems(1) obtain w1 where s: "install_step self n w = Inr w1"
    and l: "install_loop self ks w1 = Inr w'"
    by (auto split: sum.splits)
  from install_step_usable [OF s] obtain c where c: "getLogger n = Inr c"
    by (auto simp: usable_getLogger)
  have lv: "level (objs w1 self) = level (objs w self)"
    using install_step_frame [OF s, of self] by simp
  show ?case
  proof (cases "\<exists>k' \<in> set ks. getLogger k' = Inr ch")
    case True
    from Cons.IH [OF l this] lv show ?thesis by simp
  next
    case False
    with Cons.prems(2) have "getLogger n = Inr ch" by auto
    with c have "c = ch" by simp
    with install_step_objs(2) [OF s c]
    have "loggers w1 ch = \<lparr>logger_level = level (objs w self), logger_handlers = [LogCapture self]\<rparr>"
      by simp
    moreover from False have "\<forall>k \<in> set ks. getLogger k \<noteq> Inr ch" by blast
    ultimately show ?thesis using install_loop_untouched [OF l] by simp
  qed
qed

lemma install_loop_saved:
  "install_loop self ks w = Inr w' \<Longrightarrow> distinct (map getLogger ks) \<Longrightarrow>
   k \<in> set ks \<Longrightarrow> getLogger k = Inr ch \<Longrightarrow>
     oldlevels (objs w' self) k = Some (logger_level (loggers w ch)) \<and>
     oldhandlers (objs w' self) k = Some (logger_handlers (loggers w ch))"
proof (induction ks arbitrary: w)
  case Nil
  then show ?case by simp
next
  case (Cons n ks)
  from Cons.prems(1) obtain w1 where s: "install_step self n w = Inr w1"
    and l: "install_loop self ks w1 = Inr w'"
    by (auto split: sum.splits)
  from install_step_usable [OF s] obtain c where c: "getLogger n = Inr c"
    by (auto simp: usable_getLogger)
  from Cons.prems(2) have d: "distinct (map getLogger ks)" and nin: "getLogger n \<notin> getLogger ` set ks"
    by simp_all
  show ?case
  proof (cases "k = n")
    case True
    with c Cons.prems(4) have cc: "c = ch" by simp
    from nin True have "k \<notin> set ks" by auto
    from install_loop_keeps [OF l this] install_step_objs(1) [OF s c] True cc
    show ?thesis by simp
  next
    case False
    with Cons.prems(3) have kin: "k \<in> set ks" by simp
    with nin Cons.prems(4) c have "c \<noteq> ch" by force
    with install_step_objs(2) [OF s c] have "loggers w1 ch = loggers w ch" by simp
    with Cons.IH [OF l d kin Cons.prems(4)] show ?thesis by simp
  qed
qed

lemma install_loop_dom:
  "install_loop self ks w = Inr w' \<Longrightarrow>
     (\<forall>k \<in> set ks. oldlevels (objs w' self) k \<noteq> None \<and> oldhandlers (objs w' self) k \<noteq> None)"
proof (induction ks arbitrary: w)
  case Nil
  then show ?case by simp
next
  case (Cons n ks)
  from Cons.prems(1) obtain w1 where s: "install_step self n w = Inr w1"
    and l: "install_loop self ks w1 = Inr w'"
    by (auto split: sum.splits)
  from install_step_usable [OF s] obtain c where c: "getLogger n = Inr c"
    by (auto simp: usable_getLogger)
  have "oldlevels (objs w' self) n \<noteq> None \<and> oldhandlers (objs w' self) n \<noteq> None"
  proof (cases "n \<in> set ks")
    case True
    with Cons.IH [OF l] show ?thesis by blast
  next
    case False
    from install_loop_keeps [OF l False] install_step_objs(1) [OF s c] show ?thesis by simp
  qed
  with Cons.IH [OF l] show ?case by simp
qed

section \<open>The loop of uninstall\<close>

lemma uninstall_step_loggers:
  assumes "uninstall_step self k w = Inr w'"
  obtains ch l hs where "getLogger k = Inr ch" "oldlevels (objs w self) k = Some l"
    "oldhandlers (objs w self) k = Some hs"
    "loggers w' = (loggers w)(ch := \<lparr>logger_level = l, logger_handlers = hs\<rparr>)"
  using assms by (auto simp: uninstall_step_def split: sum.splits option.splits)

lemma uninstall_step_total:
  assumes "usable k" "oldlevels (objs w self) k \<noteq> None" "oldhandlers (objs w self) k \<noteq> None"
  shows "\<exists>w'. uninstall_step self k w = Inr w'"
  using assms by (auto simp: uninstall_step_def usable_getLogger)

lemma uninstall_loop_total:
  "\<forall>k \<in> set ks. usable k \<and> oldlevels (objs w self) k \<noteq> None \<and>
      oldhandlers (objs w self) k \<noteq> None \<Longrightarrow>
   \<exists>w'. uninstall_loop self ks w = Inr w'"
proof (induction ks arbitrary: w)
  case Nil
  show ?case by simp
next
  case (Cons k ks)
  from Cons.prems(1) obtain w1 where s: "uninstall_step self k w = Inr w1"
    using uninstall_step_total [of k w self] by auto
  from uninstall_step_frame [OF s] have "objs w1 = objs w" by simp
  with Cons.prems have "\<forall>k \<in> set ks. usable k \<and> oldlevels (objs w1 self) k \<noteq> None \<and>
      oldhandlers (objs w1 self) k \<noteq> None" by simp
  from Cons.IH [OF this] s show ?case by simp
qed

lemma uninstall_loop_untouched:
  "uninstall_loop self ks w = Inr w' \<Longrightarrow> \<forall>k \<in> set ks. getLogger k \<noteq> Inr ch \<Longrightarrow>
     loggers w' ch = loggers w ch"
proof (induction ks arbitrary: w)
  case Nil
  then show ?case by simp
next
  case (Cons n ks)
  from Cons.prems(1) obtain w1 where s: "uninstall_step self n w = Inr w1"
    and l: "uninstall_loop self ks w1 = Inr w'"
    by (auto split: sum.splits)
  from s obtain c lv hs where c: "getLogger n = Inr c"
    and lg: "loggers w1 = (loggers w)(c := \<lparr>logger_level = lv, logger_handlers = hs\<rparr>)"
    by (rule uninstall_step_loggers)
  from c Cons.prems(2) have "c \<noteq> ch" by auto
  with lg have "loggers w1 ch = loggers w ch" by simp
  moreover from Cons.prems(2) have "\<forall>k \<in> set ks. getLogger k \<noteq> Inr ch" by simp
  ultimately show ?case using Cons.IH [OF l] by simp
qed

text \<open>
  A logger that exactly one of the names refers to ends with what was saved under that name.
\<close>

lemma uninstall_loop_restored:
  "uninstall_loop self ks w = Inr w' \<Longrightarrow> k \<in> set ks \<Longrightarrow> getLogger k = Inr ch \<Longrightarrow>
   \<forall>k' \<in> set ks. getLogger k' = Inr ch \<longrightarrow> k' = k \<Longrightarrow>
   oldlevels (objs w self) k = Some lv \<Longrightarrow> oldhandlers (objs w self) k = Some hs \<Longrightarrow>
     loggers w' ch = \<lparr>logger_level = lv, logger_handlers = hs\<rparr>"
proof (induction ks arbitrary: w)
  case Nil
  then show ?case by simp
next
  case (Cons n ks)
  from Cons.prems(1) obtain w1 where s: "uninstall_step self n w = Inr w1"
    and l: "uninstall_loop self ks w1 = Inr w'"
    by (auto split: sum.splits)
  from uninstall_step_frame [OF s] have o: "objs w1 = objs w" by simp
  from s obtain c lv' hs' where c: "getLogger n = Inr c"
    and sv: "oldlevels (objs w self) n = Some lv'" "oldhandlers (objs w self) n = Some hs'"
    and lg: "loggers w1 = (loggers w)(c := \<lparr>logger_level = lv', logger_handlers = hs'\<rparr>)"
    by (rule uninstall_step_loggers)
  from Cons.prems(4) have sole: "\<forall>k' \<in> set ks. getLogger k' = Inr ch \<longrightarrow> k' = k" by simp
  show ?case
  proof (cases "k \<in> set ks")
    case True
    from Cons.IH [OF l True Cons.prems(3) sole] Cons.prems(5,6) o show ?thesis by simp
  next
    case False
    with Cons.prems(2) have kn: "k = n" by simp
    with c Cons.prems(3) have "c = ch" by simp
    with lg sv kn Cons.prems(5,6)
    have "loggers w1 ch = \<lparr>logger_level = lv, logger_handlers = hs\<rparr>" by simp
    moreover from False sole have "\<forall>k' \<in> set ks. getLogger k' \<noteq> Inr ch" by blast
    ultimately show ?thesis using uninstall_loop_untouched [OF l] by simp
  qed
qed

lemma uninstall_total:
  assumes "self \<in> instances w \<longrightarrow> restorable w self"
  shows "\<exists>w'. uninstall self w = Inr w'"
proof (cases "self \<in> instances w")
  case True
  with assms have "restorable w self" by simp
  then obtain w1 where "uninstall_loop self (names (objs w self)) w = Inr w1"
    using uninstall_loop_total [of "names (objs w self)" w self] by (auto simp: restorable_def)
  with True show ?thesis by (simp add: uninstall_def)
next
  case False
  then show ?thesis by (simp add: uninstall_def)
qed

lemma uninstall_registered:
  assumes "uninstall self w = Inr w'" "self \<in> instances w"
  obtains w1 where "uninstall_loop self (names (objs w self)) w = Inr w1"
    "w' = w1\<lparr>instances := instances w1 - {self}\<rparr>"
  using assms by (auto simp: uninstall_def split: sum.splits)

lemma install_restorable:
  assumes "install self w = Inr w'"
  shows "restorable w' self"
proof -
  from assms obtain w1 where l: "install_loop self (names (objs w self)) w = Inr w1"
    and w': "w' = (if atexit_setup w1 then w1\<lparr>instances := insert self (instances w1)\<rparr>
               else w1\<lparr>instances := insert self (instances w1),
                       atexit_registered := Suc (atexit_registered w1),
                       atexit_setup := True\<rparr>)"
    by (rule install_unfold)
  from w' have o: "objs w' = objs w1" by simp
  from install_loop_frame [OF l, of self] have n: "names (objs w1 self) = names (objs w self)"
    by simp
  from install_loop_usable [OF l] install_loop_dom [OF l] o n show ?thesis
    by (simp add: restorable_def)
qed

text \<open>Installing on names that refer to different loggers, and uninstalling from there.\<close>

lemma install_then_uninstall:
  assumes u: "\<forall>k \<in> set (names (objs w self)). usable k"
    and d: "distinct (map getLogger (names (objs w self)))"
  shows "\<exists>w1 w2. install self w = Inr w1 \<and> uninstall self w1 = Inr w2 \<and>
           loggers w2 = loggers w \<and> instances w2 = instances w - {self}"
proof -
  let ?ks = "names (objs w self)"
  from install_loop_total [OF u] obtain wl where l: "install_loop self ?ks w = Inr wl" by blast
  define w1 where "w1 = (if atexit_setup wl then wl\<lparr>instances := insert self (instances wl)\<rparr>
               else wl\<lparr>instances := insert self (instances wl),
                       atexit_registered := Suc (atexit_registered wl),
                       atexit_setup := True\<rparr>)"
  from l have i: "install self w = Inr w1" by (simp add: install_def w1_def Let_def)
  have fr: "instances w1 = insert self (instances w)" "names (objs w1 self) = ?ks"
    using install_frame [OF i, of self] by simp_all
  have o1: "objs w1 = objs wl" and lg1: "loggers w1 = loggers wl" by (simp_all add: w1_def)
  from install_restorable [OF i] uninstall_total [of self w1]
  obtain w2 where un: "uninstall self w1 = Inr w2" by blast
  from fr have "self \<in> instances w1" by simp
  with un obtain wu where ul: "uninstall_loop self ?ks w1 = Inr wu"
    and w2: "w2 = wu\<lparr>instances := instances wu - {self}\<rparr>"
    using fr(2) by (auto elim: uninstall_registered)
  have "loggers w2 ch = loggers w ch" for ch
  proof (cases "\<exists>k \<in> set ?ks. getLogger k = Inr ch")
    case True
    then obtain k where k: "k \<in> set ?ks" "getLogger k = Inr ch" by blast
    from d have "inj_on getLogger (set ?ks)" by (simp add: distinct_map)
    with k have sole: "\<forall>k' \<in> set ?ks. getLogger k' = Inr ch \<longrightarrow> k' = k"
      by (metis inj_onD)
    from install_loop_saved [OF l d k] o1
    have "oldlevels (objs w1 self) k = Some (logger_level (loggers w ch))"
      "oldhandlers (objs w1 self) k = Some (logger_handlers (loggers w ch))" by simp_all
    from uninstall_loop_restored [OF ul k sole this] w2 show ?thesis by simp
  next
    case False
    then have n: "\<forall>k \<in> set ?ks. getLogger k \<noteq> Inr ch" by blast
    from uninstall_loop_untouched [OF ul n] install_loop_untouched [OF l n] w2 lg1
    show ?thesis by simp
  qed
  then have "loggers w2 = loggers w" by (rule ext)
  moreover from uninstall_frame [OF un] fr have "instances w2 = instances w - {self}" by auto
  ultimately show ?thesis using i un by blast
qed

section \<open>uninstall and uninstall_all on the loggers\<close>

lemma uninstall_untouched:
  assumes "uninstall j w = Inr w'"
    and "j \<in> instances w \<longrightarrow> (\<forall>k \<in> set (names (objs w j)). getLogger k \<noteq> Inr ch)"
  shows "loggers w' ch = loggers w ch"
proof (cases "j \<in> instances w")
  case True
  with assms(1) obtain w1 where l: "uninstall_loop j (names (objs w j)) w = Inr w1"
    and w': "w' = w1\<lparr>instances := instances w1 - {j}\<rparr>"
    by (rule uninstall_registered)
  from True assms(2) have "\<forall>k \<in> set (names (objs w j)). getLogger k \<noteq> Inr ch" by simp
  from uninstall_loop_untouched [OF l this] w' show ?thesis by simp
next
  case False
  with assms(1) show ?thesis by (simp add: uninstall_def)
qed

lemma uninstall_restored:
  assumes "uninstall i w = Inr w'" and "i \<in> instances w"
    and "k \<in> set (names (objs w i))" and "getLogger k = Inr ch"
    and "\<forall>k' \<in> set (names (objs w i)). getLogger k' = Inr ch \<longrightarrow> k' = k"
    and "oldlevels (objs w i) k = Some lv" and "oldhandlers (objs w i) k = Some hs"
  shows "loggers w' ch = \<lparr>logger_level = lv, logger_handlers = hs\<rparr>"
proof -
  from assms(1,2) obtain w1 where l: "uninstall_loop i (names (objs w i)) w = Inr w1"
    and w': "w' = w1\<lparr>instances := instances w1 - {i}\<rparr>"
    by (rule uninstall_registered)
  from uninstall_loop_restored [OF l assms(3,4,5,6,7)] w' show ?thesis by simp
qed

lemma uninstall_all_frame:
  "uninstall_all order w = Inr w' \<Longrightarrow>
     instances w' = instances w - set order \<and> objs w' = objs w \<and> nobjs w' = nobjs w \<and>
     heap w' = heap w"
proof (induction order arbitrary: w)
  case Nil
  then show ?case by simp
next
  case (Cons j order)
  from Cons.prems obtain w1 where u: "uninstall j w = Inr w1"
    and r: "uninstall_all order w1 = Inr w'"
    by (auto split: sum.splits)
  from Cons.IH [OF r] uninstall_frame [OF u] show ?case by auto
qed

lemma uninstall_all_total:
  "\<forall>i \<in> instances w. restorable w i \<Longrightarrow> \<exists>w'. uninstall_all order w = Inr w'"
proof (induction order arbitrary: w)
  case Nil
  show ?case by simp
next
  case (Cons j order)
  then obtain w1 where u: "uninstall j w = Inr w1"
    using uninstall_total [of j w] by blast
  from uninstall_frame [OF u] Cons.prems have "\<forall>i \<in> instances w1. restorable w1 i"
    by (auto simp: restorable_def)
  from Cons.IH [OF this] u show ?case by simp
qed

lemma uninstall_all_untouched:
  "uninstall_all order w = Inr w' \<Longrightarrow>
   \<forall>j \<in> set order \<inter> instances w. \<forall>k \<in> set (names (objs w j)). getLogger k \<noteq> Inr ch \<Longrightarrow>
     loggers w' ch = loggers w ch"
proof (induction order arbitrary: w)
  case Nil
  then show ?case by simp
next
  case (Cons j order)
  from Cons.prems(1) obtain w1 where u: "uninstall j w = Inr w1"
    and r: "uninstall_all order w1 = Inr w'"
    by (auto split: sum.splits)
  from Cons.prems(2)
  have "j \<in> instances w \<longrightarrow> (\<forall>k \<in> set (names (objs w j)). getLogger k \<noteq> Inr ch)" by auto
  from uninstall_untouched [OF u this] have a: "loggers w1 ch = loggers w ch" .
  from uninstall_frame [OF u] Cons.prems(2)
  have "\<forall>j \<in> set order \<inter> instances w1. \<forall>k \<in> set (names (objs w1 j)). getLogger k \<noteq> Inr ch"
    by auto
  from Cons.IH [OF r this] a show ?case by simp
qed

lemma uninstall_all_restored:
  "uninstall_all order w = Inr w' \<Longrightarrow> i \<in> set order \<Longrightarrow> i \<in> instances w \<Longrightarrow>
   k \<in> set (names (objs w i)) \<Longrightarrow> getLogger k = Inr ch \<Longrightarrow> sole_user w i k ch \<Longrightarrow>
   oldlevels (objs w i) k = Some lv \<Longrightarrow> oldhandlers (objs w i) k = Some hs \<Longrightarrow>
     loggers w' ch = \<lparr>logger_level = lv, logger_handlers = hs\<rparr>"
proof (induction order arbitrary: w)
  case Nil
  then show ?case by simp
next
  case (Cons j order)
  from Cons.prems(1) obtain w1 where u: "uninstall j w = Inr w1"
    and r: "uninstall_all order w1 = Inr w'"
    by (auto split: sum.splits)
  from uninstall_frame [OF u]
  have f: "instances w1 = instances w - {j}" "objs w1 = objs w" by simp_all
  from Cons.prems(6) have sole: "\<And>j' k'. j' \<in> instances w \<Longrightarrow> k' \<in> set (names (objs w j')) \<Longrightarrow>
      getLogger k' = Inr ch \<Longrightarrow> j' = i \<and> k' = k"
    by (auto simp: sole_user_def)
  show ?case
  proof (cases "j = i")
    case True
    from sole [OF Cons.prems(3)]
    have "\<forall>k' \<in> set (names (objs w i)). getLogger k' = Inr ch \<longrightarrow> k' = k" by blast
    from uninstall_restored [OF u [unfolded True] Cons.prems(3,4,5) this Cons.prems(7,8)]
    have a: "loggers w1 ch = \<lparr>logger_level = lv, logger_handlers = hs\<rparr>" .
    have "\<forall>j' \<in> set order \<inter> instances w1. \<forall>k' \<in> set (names (objs w1 j')).
        getLogger k' \<noteq> Inr ch"
      using f True sole by auto
    from uninstall_all_untouched [OF r this] a show ?thesis by simp
  next
    case False
    with Cons.prems(2,3) f have i: "i \<in> set order" "i \<in> instances w1" by auto
    from sole f have s1: "sole_user w1 i k ch" by (auto simp: sole_user_def)
    from Cons.IH [OF r i _ Cons.prems(5) s1] Cons.prems(4,7,8) f show ?thesis by simp
  qed
qed

section \<open>Facts about the concrete states\<close>

lemma both_facts:
  "instances both = {0, Suc 0}"
  "names (objs both 0) = [KStr ''app.db'']"
  "names (objs both (Suc 0)) = [KStr ''web'']"
  "oldlevels (objs both 0) (KStr ''app.db'') = Some 40"
  "oldhandlers (objs both 0) (KStr ''app.db'') = Some [Foreign 7]"
  "oldlevels (objs both (Suc 0)) (KStr ''web'') = Some 0"
  "oldhandlers (objs both (Suc 0)) (KStr ''web'') = Some []"
  "loggers both (Named ''app.db'') = \<lparr>logger_level = 1, logger_handlers = [LogCapture 0]\<rparr>"
  "loggers both (Named ''web'') = \<lparr>logger_level = 1, logger_handlers = [LogCapture 1]\<rparr>"
  by (simp_all add: both_def and_then_def init_def configured_def startup_def allocate_def
      clear_def Let_def install_def install_step_def insert_commute)

lemma session_orderly: "orderly_run session configured"
  by (simp add: session_def configured_def startup_def init_def allocate_def clear_def emit_def
      and_then_def Let_def install_def install_step_def uninstall_def uninstall_step_def
      well_named_def unclaimed_def in_use_def)

lemma session_result:
  "map_sum id (\<lambda>w. (instances w, loggers w (Named ''web''), loggers w (Named ''app.db'')))
     (run session configured) =
   Inr ({1}, \<lparr>logger_level = 1, logger_handlers = [LogCapture 1]\<rparr>,
        \<lparr>logger_level = 40, logger_handlers = [Foreign 7]\<rparr>)"
  by (simp add: session_def configured_def startup_def init_def allocate_def clear_def emit_def
      and_then_def Let_def install_def install_step_def uninstall_def uninstall_step_def)

section \<open>Sequences of calls keep the state sound\<close>

lemma install_others:
  assumes "install self w = Inr w'" and "i \<noteq> self"
  shows "objs w' i = objs w i"
proof -
  from assms(1) obtain w1 where l: "install_loop self (names (objs w self)) w = Inr w1"
    and w': "w' = (if atexit_setup w1 then w1\<lparr>instances := insert self (instances w1)\<rparr>
               else w1\<lparr>instances := insert self (instances w1),
                       atexit_registered := Suc (atexit_registered w1),
                       atexit_setup := True\<rparr>)"
    by (rule install_unfold)
  from install_loop_others [OF l assms(2)] w' show ?thesis by simp
qed

lemma install_total:
  assumes "\<forall>k \<in> set (names (objs w self)). usable k"
  shows "\<exists>w'. install self w = Inr w'"
proof -
  from install_loop_total [OF assms] obtain w1
    where "install_loop self (names (objs w self)) w = Inr w1" by blast
  then show ?thesis by (simp add: install_def Let_def)
qed

lemma install_sound:
  assumes "sound w" and "self < nobjs w"
  shows "\<exists>w'. install self w = Inr w' \<and> sound w'"
proof -
  from assms have "\<forall>k \<in> set (names (objs w self)). usable k" by (simp add: sound_def)
  from install_total [OF this] obtain w' where i: "install self w = Inr w'" by blast
  have f: "instances w' = insert self (instances w)" "nobjs w' = nobjs w"
    "\<And>j. names (objs w' j) = names (objs w j)"
    using install_frame [OF i] by simp_all
  have r: "restorable w' j" if "j \<in> instances w'" for j
  proof (cases "j = self")
    case True
    with install_restorable [OF i] show ?thesis by simp
  next
    case False
    with that f have "j \<in> instances w" by simp
    with assms(1) have "restorable w j" by (simp add: sound_def)
    with install_others [OF i False] show ?thesis by (simp add: restorable_def)
  qed
  from assms f r have "sound w'" by (auto simp: sound_def)
  with i show ?thesis by blast
qed

lemma uninstall_sound:
  assumes "sound w"
  shows "\<exists>w'. uninstall self w = Inr w' \<and> sound w'"
proof -
  from assms have "self \<in> instances w \<longrightarrow> restorable w self" by (simp add: sound_def)
  from uninstall_total [OF this] obtain w' where u: "uninstall self w = Inr w'" by blast
  from uninstall_frame [OF u] assms have "sound w'" by (auto simp: sound_def restorable_def)
  with u show ?thesis by blast
qed

lemma uninstall_all_sound:
  "sound w \<Longrightarrow> \<exists>w'. uninstall_all order w = Inr w' \<and> sound w'"
proof (induction order arbitrary: w)
  case Nil
  then show ?case by simp
next
  case (Cons j order)
  from uninstall_sound [OF Cons.prems, of j] obtain w1
    where u: "uninstall j w = Inr w1" and s: "sound w1" by blast
  from Cons.IH [OF s] u show ?case by simp
qed

lemma allocate_effect:
  "allocate a lvl w = (i, w1) \<Longrightarrow>
     i = nobjs w \<and> nobjs w1 = Suc (nobjs w) \<and> instances w1 = instances w \<and>
     loggers w1 = loggers w \<and> heap w1 = heap w \<and>
     objs w1 = (objs w)(nobjs w := \<lparr>names = init_names a, level = lvl, oldlevels = Map.empty,
                                     oldhandlers = Map.empty, records = []\<rparr>)"
  by (auto simp: allocate_def clear_def Let_def)

lemma allocate_sound:
  assumes "sound w" and "allocate a lvl w = (i, w1)" and "list_all usable (init_names a)"
  shows "sound w1"
proof -
  from allocate_effect [OF assms(2)]
  have f: "nobjs w1 = Suc (nobjs w)" "instances w1 = instances w"
    "objs w1 = (objs w)(nobjs w := \<lparr>names = init_names a, level = lvl, oldlevels = Map.empty,
                                     oldhandlers = Map.empty, records = []\<rparr>)"
    by simp_all
  have a: "i < nobjs w1 \<and> restorable w1 i" if "i \<in> instances w1" for i
  proof -
    from that f assms(1) have "i < nobjs w" "restorable w i" by (simp_all add: sound_def)
    with f show ?thesis by (simp add: restorable_def)
  qed
  have b: "usable k" if "i < nobjs w1" "k \<in> set (names (objs w1 i))" for i k
  proof (cases "i = nobjs w")
    case True
    with that f assms(3) show ?thesis by (simp add: list_all_iff)
  next
    case False
    with that f have "i < nobjs w" "k \<in> set (names (objs w i))" by simp_all
    with assms(1) show ?thesis by (simp add: sound_def)
  qed
  from a b show ?thesis by (simp add: sound_def)
qed

lemma init_unfold:
  "init a inst lvl w =
     (if inst then and_then (install (nobjs w) (snd (allocate a lvl w))) (\<lambda>w2. Inr (nobjs w, w2))
      else Inr (nobjs w, snd (allocate a lvl w)))"
  by (simp add: init_def allocate_def Let_def and_then_def)

section \<open>install and the constructor, whole\<close>

lemma install_saved:
  assumes "install self w = Inr w'" and "distinct (map getLogger (names (objs w self)))"
    and "k \<in> set (names (objs w self))" and "getLogger k = Inr ch"
  shows "oldlevels (objs w' self) k = Some (logger_level (loggers w ch)) \<and>
         oldhandlers (objs w' self) k = Some (logger_handlers (loggers w ch))"
proof -
  from assms(1) obtain w1 where l: "install_loop self (names (objs w self)) w = Inr w1"
    and w': "w' = (if atexit_setup w1 then w1\<lparr>instances := insert self (instances w1)\<rparr>
               else w1\<lparr>instances := insert self (instances w1),
                       atexit_registered := Suc (atexit_registered w1),
                       atexit_setup := True\<rparr>)"
    by (rule install_unfold)
  from install_loop_saved [OF l assms(2,3,4)] w' show ?thesis by simp
qed

lemma install_swapped:
  assumes "install self w = Inr w'" and "k \<in> set (names (objs w self))"
    and "getLogger k = Inr ch"
  shows "loggers w' ch = \<lparr>logger_level = level (objs w self), logger_handlers = [LogCapture self]\<rparr>"
proof -
  from assms(1) obtain w1 where l: "install_loop self (names (objs w self)) w = Inr w1"
    and w': "w' = (if atexit_setup w1 then w1\<lparr>instances := insert self (instances w1)\<rparr>
               else w1\<lparr>instances := insert self (instances w1),
                       atexit_registered := Suc (atexit_registered w1),
                       atexit_setup := True\<rparr>)"
    by (rule install_unfold)
  from assms(2,3) have "\<exists>k \<in> set (names (objs w self)). getLogger k = Inr ch" by blast
  from install_loop_swapped [OF l this] w' show ?thesis by simp
qed

lemma init_installed:
  assumes "init a True lvl w = Inr (i, w1)"
  obtains w0 where "allocate a lvl w = (i, w0)" "install i w0 = Inr w1"
  using assms by (auto simp: init_def and_then_def split: prod.splits sum.splits)

lemma init_names_kept:
  assumes "init a inst lvl w = Inr (i, w')"
  shows "i = nobjs w \<and> names (objs w' i) = init_names a \<and> level (objs w' i) = lvl"
proof -
  obtain j w0 where al: "allocate a lvl w = (j, w0)" by force
  note e = allocate_effect [OF al]
  show ?thesis
  proof (cases inst)
    case True
    with assms al have "i = j" and "install i w0 = Inr w'"
      by (auto simp: init_def split: sum.splits)
    with install_frame [of i w0 w' i] e show ?thesis by simp
  next
    case False
    with assms al have "i = j" "w' = w0" by (simp_all add: init_def)
    with e show ?thesis by simp
  qed
qed

section \<open>Orderly use keeps the loggers and the registry in step\<close>

lemma install_untouched:
  assumes "install self w = Inr w'"
    and "\<forall>k \<in> set (names (objs w self)). getLogger k \<noteq> Inr ch"
  shows "loggers w' ch = loggers w ch"
proof -
  from assms(1) obtain w1 where l: "install_loop self (names (objs w self)) w = Inr w1"
    and w': "w' = (if atexit_setup w1 then w1\<lparr>instances := insert self (instances w1)\<rparr>
               else w1\<lparr>instances := insert self (instances w1),
                       atexit_registered := Suc (atexit_registered w1),
                       atexit_setup := True\<rparr>)"
    by (rule install_unfold)
  from install_loop_untouched [OF l assms(2)] w' show ?thesis by simp
qed

lemma well_named_sole:
  assumes "well_named ks" and "k \<in> set ks" and "getLogger k = Inr ch"
  shows "\<forall>k' \<in> set ks. getLogger k' = Inr ch \<longrightarrow> k' = k"
proof -
  from assms(1) have "inj_on getLogger (set ks)" by (simp add: well_named_def distinct_map)
  with assms(2,3) show ?thesis by (metis inj_onD)
qed

lemma tidyD:
  assumes "tidy w"
  shows "sound w"
    and "\<And>i. i < nobjs w \<Longrightarrow> well_named (names (objs w i))"
    and "\<And>i k ch. i \<in> instances w \<Longrightarrow> k \<in> set (names (objs w i)) \<Longrightarrow> getLogger k = Inr ch \<Longrightarrow>
           loggers w ch = \<lparr>logger_level = level (objs w i), logger_handlers = [LogCapture i]\<rparr>"
    and "\<And>ch i. LogCapture i \<in> set (logger_handlers (loggers w ch)) \<Longrightarrow>
           i \<in> instances w \<and> (\<exists>k \<in> set (names (objs w i)). getLogger k = Inr ch)"
    and "\<And>i k hs j. i \<in> instances w \<Longrightarrow> k \<in> set (names (objs w i)) \<Longrightarrow>
           oldhandlers (objs w i) k = Some hs \<Longrightarrow> LogCapture j \<notin> set hs"
  using assms unfolding tidy_def by blast+

lemma tidyI:
  assumes "sound w"
    and "\<And>i. i < nobjs w \<Longrightarrow> well_named (names (objs w i))"
    and "\<And>i k ch. i \<in> instances w \<Longrightarrow> k \<in> set (names (objs w i)) \<Longrightarrow> getLogger k = Inr ch \<Longrightarrow>
           loggers w ch = \<lparr>logger_level = level (objs w i), logger_handlers = [LogCapture i]\<rparr>"
    and "\<And>ch i. LogCapture i \<in> set (logger_handlers (loggers w ch)) \<Longrightarrow>
           i \<in> instances w \<and> (\<exists>k \<in> set (names (objs w i)). getLogger k = Inr ch)"
    and "\<And>i k hs j. i \<in> instances w \<Longrightarrow> k \<in> set (names (objs w i)) \<Longrightarrow>
           oldhandlers (objs w i) k = Some hs \<Longrightarrow> LogCapture j \<notin> set hs"
  shows "tidy w"
  unfolding tidy_def using assms by blast

lemma sound_registered:
  "sound w \<Longrightarrow> i \<in> instances w \<Longrightarrow> i < nobjs w \<and> restorable w i"
  by (simp add: sound_def)

text \<open>Installing an instance that is not installed, on loggers no installed instance uses.\<close>

lemma install_tidy:
  assumes t: "tidy w" and a: "self < nobjs w" and n: "self \<notin> instances w"
    and u: "unclaimed w (names (objs w self))"
  shows "\<exists>w'. install self w = Inr w' \<and> tidy w'"
proof -
  let ?ks = "names (objs w self)"
  note s = tidyD(1) [OF t] and wn = tidyD(2) [OF t] and sw = tidyD(3) [OF t]
    and on = tidyD(4) [OF t] and sv = tidyD(5) [OF t]
  from install_sound [OF s a] obtain w' where i: "install self w = Inr w'" and s': "sound w'"
    by blast
  have f: "instances w' = insert self (instances w)" "nobjs w' = nobjs w"
    "\<And>j. names (objs w' j) = names (objs w j)" "\<And>j. level (objs w' j) = level (objs w j)"
    using install_frame [OF i] by simp_all
  have oth: "\<And>j. j \<noteq> self \<Longrightarrow> objs w' j = objs w j" by (rule install_others [OF i])
  have own: "ch \<notin> {c. \<exists>k \<in> set ?ks. getLogger k = Inr c}"
    if "j \<in> instances w" "k \<in> set (names (objs w j))" "getLogger k = Inr ch" for j k ch
    using u that by (auto simp: unclaimed_def in_use_def)
  have d: "distinct (map getLogger ?ks)" using wn [OF a] by (simp add: well_named_def)
  have 2: "well_named (names (objs w' j))" if "j < nobjs w'" for j
    using that f wn by simp
  have 3: "loggers w' ch = \<lparr>logger_level = level (objs w' j), logger_handlers = [LogCapture j]\<rparr>"
    if "j \<in> instances w'" "k \<in> set (names (objs w' j))" "getLogger k = Inr ch" for j k ch
  proof (cases "j = self")
    case True
    with that f install_swapped [OF i, of k ch] show ?thesis by simp
  next
    case False
    with that f have j: "j \<in> instances w" "k \<in> set (names (objs w j))" by simp_all
    from own [OF j that(3)] have "\<forall>k \<in> set ?ks. getLogger k \<noteq> Inr ch" by blast
    from install_untouched [OF i this] sw [OF j that(3)] f show ?thesis by simp
  qed
  have 4: "j \<in> instances w' \<and> (\<exists>k \<in> set (names (objs w' j)). getLogger k = Inr ch)"
    if h: "LogCapture j \<in> set (logger_handlers (loggers w' ch))" for ch j
  proof (cases "\<exists>k \<in> set ?ks. getLogger k = Inr ch")
    case True
    then obtain k where k: "k \<in> set ?ks" "getLogger k = Inr ch" by blast
    from install_swapped [OF i k] h have "j = self" by simp
    with k f show ?thesis by auto
  next
    case False
    then have "\<forall>k \<in> set ?ks. getLogger k \<noteq> Inr ch" by blast
    from install_untouched [OF i this] h
    have "LogCapture j \<in> set (logger_handlers (loggers w ch))" by simp
    from on [OF this] f show ?thesis by auto
  qed
  have 5: "LogCapture j' \<notin> set hs"
    if "j \<in> instances w'" "k \<in> set (names (objs w' j))" "oldhandlers (objs w' j) k = Some hs"
    for j k hs j'
  proof (cases "j = self")
    case True
    with that f have k: "k \<in> set ?ks" by simp
    from s a k have "usable k" by (simp add: sound_def)
    then obtain ch where c: "getLogger k = Inr ch" by (auto simp: usable_getLogger)
    from install_saved [OF i d k c] that(3) True
    have hs: "hs = logger_handlers (loggers w ch)" by simp
    show ?thesis
    proof
      assume "LogCapture j' \<in> set hs"
      with hs on [of j' ch] obtain k' where "j' \<in> instances w" "k' \<in> set (names (objs w j'))"
        "getLogger k' = Inr ch" by blast
      from own [OF this] k c show False by blast
    qed
  next
    case False
    with that f oth [OF False] have "j \<in> instances w" "k \<in> set (names (objs w j))"
      "oldhandlers (objs w j) k = Some hs" by simp_all
    from sv [OF this] show ?thesis .
  qed
  have "tidy w'"
    by (rule tidyI, rule s', erule 2, erule (2) 3, erule 4, erule (2) 5)
  with i show ?thesis by blast
qed

lemma uninstall_tidy:
  assumes t: "tidy w"
  shows "\<exists>w'. uninstall self w = Inr w' \<and> tidy w'"
proof (cases "self \<in> instances w")
  case False
  then have "uninstall self w = Inr w" by (simp add: uninstall_def)
  with t show ?thesis by simp
next
  case True
  note reg = True
  let ?ks = "names (objs w self)"
  note s = tidyD(1) [OF t] and wn = tidyD(2) [OF t] and sw = tidyD(3) [OF t]
    and on = tidyD(4) [OF t] and sv = tidyD(5) [OF t]
  from uninstall_sound [OF s] obtain w' where u: "uninstall self w = Inr w'" and s': "sound w'"
    by blast
  have f: "instances w' = instances w - {self}" "nobjs w' = nobjs w" "objs w' = objs w"
    using uninstall_frame [OF u] by simp_all
  from sound_registered [OF s reg] have a: "self < nobjs w" and r: "restorable w self"
    by simp_all
  have restored: "\<exists>lv hs. oldhandlers (objs w self) k = Some hs \<and>
      loggers w' ch = \<lparr>logger_level = lv, logger_handlers = hs\<rparr>"
    if k: "k \<in> set ?ks" "getLogger k = Inr ch" for k ch
  proof -
    from r k(1) obtain lv hs where o: "oldlevels (objs w self) k = Some lv"
      "oldhandlers (objs w self) k = Some hs" by (auto simp: restorable_def)
    from uninstall_restored [OF u reg k well_named_sole [OF wn [OF a] k] o] o show ?thesis
      by blast
  qed
  have apart: "\<forall>k \<in> set ?ks. getLogger k \<noteq> Inr ch"
    if "j \<in> instances w" "j \<noteq> self" "k' \<in> set (names (objs w j))" "getLogger k' = Inr ch"
    for j k' ch
  proof
    fix k assume k: "k \<in> set ?ks"
    show "getLogger k \<noteq> Inr ch"
    proof
      assume c: "getLogger k = Inr ch"
      from sw [OF reg k c] sw [OF that(1,3,4)] that(2) show False by simp
    qed
  qed
  have 2: "well_named (names (objs w' j))" if "j < nobjs w'" for j
    using that f wn by simp
  have 3: "loggers w' ch = \<lparr>logger_level = level (objs w' j), logger_handlers = [LogCapture j]\<rparr>"
    if "j \<in> instances w'" "k \<in> set (names (objs w' j))" "getLogger k = Inr ch" for j k ch
  proof -
    from that f have j: "j \<in> instances w" "j \<noteq> self" "k \<in> set (names (objs w j))" by simp_all
    from apart [OF j that(3)] have "self \<in> instances w \<longrightarrow> (\<forall>k \<in> set ?ks. getLogger k \<noteq> Inr ch)"
      by simp
    from uninstall_untouched [OF u this] sw [OF j(1,3) that(3)] f show ?thesis by simp
  qed
  have 4: "j \<in> instances w' \<and> (\<exists>k \<in> set (names (objs w' j)). getLogger k = Inr ch)"
    if h: "LogCapture j \<in> set (logger_handlers (loggers w' ch))" for ch j
  proof (cases "\<exists>k \<in> set ?ks. getLogger k = Inr ch")
    case True
    then obtain k where k: "k \<in> set ?ks" "getLogger k = Inr ch" by blast
    from restored [OF k] obtain lv hs where o: "oldhandlers (objs w self) k = Some hs"
      and l: "loggers w' ch = \<lparr>logger_level = lv, logger_handlers = hs\<rparr>" by blast
    from l h have "LogCapture j \<in> set hs" by simp
    with sv [OF reg k(1) o] show ?thesis by blast
  next
    case False
    then have nk: "\<forall>k \<in> set ?ks. getLogger k \<noteq> Inr ch" by blast
    then have "self \<in> instances w \<longrightarrow> (\<forall>k \<in> set ?ks. getLogger k \<noteq> Inr ch)" by simp
    from uninstall_untouched [OF u this] h
    have "LogCapture j \<in> set (logger_handlers (loggers w ch))" by simp
    from on [OF this] obtain k where j: "j \<in> instances w" "k \<in> set (names (objs w j))"
      "getLogger k = Inr ch" by blast
    with nk have "j \<noteq> self" by blast
    with j f show ?thesis by auto
  qed
  have 5: "LogCapture j' \<notin> set hs"
    if "j \<in> instances w'" "k \<in> set (names (objs w' j))" "oldhandlers (objs w' j) k = Some hs"
    for j k hs j'
    using that f sv [of j k hs j'] by simp
  have "tidy w'"
    by (rule tidyI, rule s', erule 2, erule (2) 3, erule 4, erule (2) 5)
  with u show ?thesis by blast
qed

lemma tidy_cong:
  assumes t: "tidy w"
    and eq: "instances w' = instances w" "nobjs w' = nobjs w" "loggers w' = loggers w"
      "\<And>j. names (objs w' j) = names (objs w j)"
      "\<And>j. level (objs w' j) = level (objs w j)"
      "\<And>j. oldlevels (objs w' j) = oldlevels (objs w j)"
      "\<And>j. oldhandlers (objs w' j) = oldhandlers (objs w j)"
  shows "tidy w'"
proof (rule tidyI)
  from tidyD(1) [OF t] show "sound w'"
    unfolding sound_def restorable_def by (simp add: eq)
  show "well_named (names (objs w' i))" if "i < nobjs w'" for i
    using that tidyD(2) [OF t, of i] by (simp add: eq)
  show "loggers w' ch = \<lparr>logger_level = level (objs w' i), logger_handlers = [LogCapture i]\<rparr>"
    if "i \<in> instances w'" "k \<in> set (names (objs w' i))" "getLogger k = Inr ch" for i k ch
    using that tidyD(3) [OF t, of i k ch] by (simp add: eq)
  show "i \<in> instances w' \<and> (\<exists>k \<in> set (names (objs w' i)). getLogger k = Inr ch)"
    if "LogCapture i \<in> set (logger_handlers (loggers w' ch))" for ch i
    using that tidyD(4) [OF t, of i ch] by (simp add: eq)
  show "LogCapture j \<notin> set hs"
    if "i \<in> instances w'" "k \<in> set (names (objs w' i))" "oldhandlers (objs w' i) k = Some hs"
    for i k hs j
    using that tidyD(5) [OF t, of i k hs j] by (simp add: eq)
qed

lemma clear_tidy: "tidy w \<Longrightarrow> tidy (clear i w)"
  by (erule tidy_cong) (simp_all add: clear_def)

lemma emit_tidy: "tidy w \<Longrightarrow> tidy (emit i r w)"
  by (erule tidy_cong) (simp_all add: emit_def)

lemma uninstall_all_tidy:
  "tidy w \<Longrightarrow> \<exists>w'. uninstall_all order w = Inr w' \<and> tidy w'"
proof (induction order arbitrary: w)
  case Nil
  then show ?case by simp
next
  case (Cons j order)
  from uninstall_tidy [OF Cons.prems, of j] obtain w1
    where u: "uninstall j w = Inr w1" and t: "tidy w1" by blast
  from Cons.IH [OF t] u show ?case by simp
qed

lemma allocate_tidy:
  assumes t: "tidy w" and al: "allocate a lvl w = (i, w1)" and wn: "well_named (init_names a)"
  shows "tidy w1 \<and> i < nobjs w1 \<and> i \<notin> instances w1 \<and> names (objs w1 i) = init_names a \<and>
         (unclaimed w (init_names a) \<longrightarrow> unclaimed w1 (init_names a))"
proof -
  note s = tidyD(1) [OF t]
  from allocate_effect [OF al]
  have f: "i = nobjs w" "nobjs w1 = Suc (nobjs w)" "instances w1 = instances w"
    "loggers w1 = loggers w"
    "objs w1 = (objs w)(nobjs w := \<lparr>names = init_names a, level = lvl, oldlevels = Map.empty,
                                     oldhandlers = Map.empty, records = []\<rparr>)"
    by simp_all
  have old: "objs w1 j = objs w j" if "j \<in> instances w" for j
  proof -
    from sound_registered [OF s that] have "j \<noteq> nobjs w" by simp
    with f show ?thesis by simp
  qed
  from wn have "list_all usable (init_names a)" by (simp add: well_named_def)
  from allocate_sound [OF s al this] have s1: "sound w1" .
  have 2: "well_named (names (objs w1 j))" if "j < nobjs w1" for j
  proof (cases "j = nobjs w")
    case True
    with f wn show ?thesis by simp
  next
    case False
    with that f have "j < nobjs w" "objs w1 j = objs w j" by simp_all
    with tidyD(2) [OF t] show ?thesis by simp
  qed
  have 3: "loggers w1 ch = \<lparr>logger_level = level (objs w1 j), logger_handlers = [LogCapture j]\<rparr>"
    if "j \<in> instances w1" "k \<in> set (names (objs w1 j))" "getLogger k = Inr ch" for j k ch
    using that f old [of j] tidyD(3) [OF t, of j k ch] by simp
  have 4: "j \<in> instances w1 \<and> (\<exists>k \<in> set (names (objs w1 j)). getLogger k = Inr ch)"
    if "LogCapture j \<in> set (logger_handlers (loggers w1 ch))" for ch j
  proof -
    from that f tidyD(4) [OF t, of j ch]
    have "j \<in> instances w" "\<exists>k \<in> set (names (objs w j)). getLogger k = Inr ch" by simp_all
    with old [of j] f show ?thesis by simp
  qed
  have 5: "LogCapture j' \<notin> set hs"
    if "j \<in> instances w1" "k \<in> set (names (objs w1 j))" "oldhandlers (objs w1 j) k = Some hs"
    for j k hs j'
    using that f old [of j] tidyD(5) [OF t, of j k hs j'] by simp
  have t1: "tidy w1"
    by (rule tidyI, rule s1, erule 2, erule (2) 3, erule 4, erule (2) 5)
  have "i \<notin> instances w1"
  proof
    assume "i \<in> instances w1"
    with f sound_registered [OF s, of i] show False by simp
  qed
  moreover have "in_use w1 ch = in_use w ch" for ch
    using f old by (auto simp: in_use_def)
  then have "unclaimed w1 ks = unclaimed w ks" for ks by (simp add: unclaimed_def)
  ultimately show ?thesis using t1 f by simp
qed

lemma perform_tidy:
  assumes "tidy w" and "orderly c w"
  shows "\<exists>w'. perform c w = Inr w' \<and> tidy w'"
proof (cases c)
  case (Construct a inst lvl)
  obtain i w1 where al: "allocate a lvl w = (i, w1)" by force
  from Construct assms(2) have wn: "well_named (init_names a)" by simp
  from allocate_tidy [OF assms(1) al wn]
  have t1: "tidy w1" and i: "i < nobjs w1" "i \<notin> instances w1"
    and n: "names (objs w1 i) = init_names a"
    and u: "unclaimed w (init_names a) \<longrightarrow> unclaimed w1 (init_names a)" by simp_all
  from allocate_effect [OF al] have e: "i = nobjs w" by simp
  show ?thesis
  proof (cases inst)
    case True
    with Construct assms(2) u n have "unclaimed w1 (names (objs w1 i))" by simp
    from install_tidy [OF t1 i this] obtain w2
      where "install i w1 = Inr w2" "tidy w2" by blast
    with Construct True al e show ?thesis by (simp add: init_unfold and_then_def)
  next
    case False
    with Construct al t1 show ?thesis by (simp add: init_unfold and_then_def)
  qed
next
  case (Install i)
  with assms install_tidy [of w i] show ?thesis by simp
next
  case (Uninstall i)
  with assms uninstall_tidy [of w i] show ?thesis by simp
next
  case (UninstallAll order)
  with assms uninstall_all_tidy [of w order] show ?thesis by simp
next
  case (Clear i)
  with assms(1) clear_tidy [of w i] show ?thesis by simp
next
  case (Emit i r)
  with assms(1) emit_tidy [of w i r] show ?thesis by simp
next
  case (Enter i)
  with assms(1) show ?thesis by (simp add: enter_def)
next
  case (Exit i exc)
  with assms uninstall_tidy [of w i] show ?thesis by (simp add: exit_def)
qed

lemma run_tidy:
  "tidy w \<Longrightarrow> orderly_run cs w \<Longrightarrow> \<exists>w'. run cs w = Inr w' \<and> tidy w'"
proof (induction cs arbitrary: w)
  case Nil
  then show ?case by simp
next
  case (Cons c cs)
  from Cons.prems have "orderly c w" by simp
  from perform_tidy [OF Cons.prems(1) this] obtain w1
    where p: "perform c w = Inr w1" and t: "tidy w1" by blast
  from Cons.prems(2) p have "orderly_run cs w1" by simp
  from Cons.IH [OF t this] p show ?case by (simp add: and_then_def)
qed

lemma tidy_registered_swapped:
  assumes "tidy w" and "i \<in> instances w"
  shows "swapped_in w i"
proof -
  from sound_registered [OF tidyD(1) [OF assms(1)] assms(2)] have a: "i < nobjs w" by simp
  from tidyD(2) [OF assms(1) a] have ne: "names (objs w i) \<noteq> []"
    and us: "\<forall>k \<in> set (names (objs w i)). usable k"
    by (simp_all add: well_named_def list_all_iff)
  have "case getLogger k of Inl e \<Rightarrow> False
        | Inr ch \<Rightarrow> logger_handlers (loggers w ch) = [LogCapture i]"
    if k: "k \<in> set (names (objs w i))" for k
  proof -
    from us k obtain ch where c: "getLogger k = Inr ch" by (auto simp: usable_getLogger)
    from tidyD(3) [OF assms(1,2) k c] c show ?thesis by simp
  qed
  with ne show ?thesis by (simp add: swapped_in_def list_all_iff)
qed

lemma tidy_swapped_registered:
  assumes "tidy w" and "swapped_in w i"
  shows "i \<in> instances w"
proof -
  from assms(2) obtain k where k: "k \<in> set (names (objs w i))"
    by (cases "names (objs w i)") (auto simp: swapped_in_def)
  with assms(2) have "case getLogger k of Inl e \<Rightarrow> False
        | Inr ch \<Rightarrow> logger_handlers (loggers w ch) = [LogCapture i]"
    by (simp add: swapped_in_def list_all_iff)
  then obtain ch where "logger_handlers (loggers w ch) = [LogCapture i]"
    by (cases "getLogger k") simp_all
  then have "LogCapture i \<in> set (logger_handlers (loggers w ch))" by simp
  from tidyD(4) [OF assms(1) this] show ?thesis by simp
qed

lemma tidy_start:
  assumes "instances w = {}"
    and "\<forall>ch i. LogCapture i \<notin> set (logger_handlers (loggers w ch))"
    and "\<forall>i < nobjs w. well_named (names (objs w i))"
  shows "tidy w"
  using assms by (auto simp: tidy_def sound_def well_named_def list_all_iff)

section \<open>The claims\<close>

text \<open>
  C1. \<open>check(*expected)\<close> returns its neutral result exactly when the expected sequence
  equals the sequence of triples \<open>actual()\<close> yields, element for element and in order. When
  the two differ (in length or in any element) it fails with a mismatch error, which names
  the first index at which they part and the expected and the actual value there. The
  comparison itself is \<open>compare\<close>, modelled from the spec.
\<close>

theorem check_succeeds_iff_equal:
  "(check self expected w = Inr () \<longleftrightarrow> expected = actual self w) \<and>
   (expected \<noteq> actual self w \<longrightarrow>
      (\<exists>k. check self expected w =
              Inl (AssertionError (Diverge k (at_index expected k) (at_index (actual self w) k))) \<and>
           take k expected = take k (actual self w) \<and>
           at_index expected k \<noteq> at_index (actual self w) k))"
proof -
  have 1: "check self expected w = Inr () \<longleftrightarrow> expected = actual self w"
    by (simp add: check_def compare_Inr)
  have 2: "\<exists>k. check self expected w =
              Inl (AssertionError (Diverge k (at_index expected k) (at_index (actual self w) k))) \<and>
           take k expected = take k (actual self w) \<and>
           at_index expected k \<noteq> at_index (actual self w) k"
    if ne: "expected \<noteq> actual self w"
  proof -
    from ne obtain d where d: "first_diff 0 expected (actual self w) = Some d"
      using first_diff_None [of 0 expected "actual self w"]
      by (cases "first_diff 0 expected (actual self w)") auto
    obtain k a b where dd: "d = Diverge k a b" by (cases d)
    from d dd have e: "first_diff 0 expected (actual self w) = Some (Diverge k a b)" by simp
    from first_diff_Some [OF e]
    have "take k expected = take k (actual self w) \<and>
         a = at_index expected k \<and> b = at_index (actual self w) k \<and> a \<noteq> b"
      by (metis diff_zero)
    moreover from e have "check self expected w = Inl (AssertionError (Diverge k a b))"
      by (simp add: check_def compare_def)
    ultimately show ?thesis by metis
  qed
  from 1 2 show ?thesis by blast
qed

theorem check_succeeds_iff_equal_witness:
  "check 0 [(''app.db'', ''WARNING'', ''connection retry''),
            (''app.db'', ''ERROR'', ''connection failed'')] logged = Inr () \<and>
   [(''app.db'', ''ERROR'', ''connection failed'')] \<noteq> actual 0 logged \<and>
   (\<exists>k. check 0 [(''app.db'', ''ERROR'', ''connection failed'')] logged =
           Inl (AssertionError
                 (Diverge k (at_index [(''app.db'', ''ERROR'', ''connection failed'')] k)
                            (at_index (actual 0 logged) k))) \<and>
         take k [(''app.db'', ''ERROR'', ''connection failed'')] = take k (actual 0 logged) \<and>
         at_index [(''app.db'', ''ERROR'', ''connection failed'')] k \<noteq> at_index (actual 0 logged) k)"
  using check_succeeds_iff_equal
          [of 0 "[(''app.db'', ''WARNING'', ''connection retry''),
                  (''app.db'', ''ERROR'', ''connection failed'')]" logged]
        check_succeeds_iff_equal [of 0 "[(''app.db'', ''ERROR'', ''connection failed'')]" logged]
  by (simp add: actual_logged)

text \<open>
  C2. \<open>actual()\<close> yields one triple (channel name, severity name, message) for each entry
  of the buffer, in the order in which \<open>emit\<close> received them: the records emitted after
  \<open>install()\<close> follow what was there before, one triple each, in emission order. Every call
  walks the buffer as it is then: after further records it shows them too, after \<open>clear()\<close>
  it starts from nothing, and \<open>uninstall()\<close> leaves it as it was.
\<close>

theorem actual_yields_buffer_in_order:
  "length (actual self w) = length (records (objs w self)) \<and>
   (\<forall>k < length (records (objs w self)).
      actual self w ! k = entry (heap w) (records (objs w self) ! k)) \<and>
   actual self (fold (emit self) rs w) = actual self w @ map (entry (heap w)) rs \<and>
   (install self w = Inr w1 \<longrightarrow>
      actual self (fold (emit self) rs w1) = actual self w @ map (entry (heap w)) rs) \<and>
   actual self (clear self w) = [] \<and>
   actual self (fold (emit self) rs (clear self w)) = map (entry (heap w)) rs \<and>
   (uninstall self w = Inr w3 \<longrightarrow> actual self w3 = actual self w)"
proof -
  have a: "install self w = Inr w1 \<Longrightarrow>
      actual self (fold (emit self) rs w1) = actual self w @ map (entry (heap w)) rs"
    using install_frame [of self w w1 self] by (simp add: actual_emits) (simp add: actual_def)
  have b: "actual self (clear self w) = []" "heap (clear self w) = heap w"
    by (simp_all add: actual_def clear_def)
  have c: "uninstall self w = Inr w3 \<Longrightarrow> actual self w3 = actual self w"
    using uninstall_frame [of self w w3] by (simp add: actual_def)
  show ?thesis
    using a b c by (simp add: actual_emits) (simp add: actual_def)
qed

theorem actual_yields_buffer_in_order_witness:
  "\<exists>w1. install 0 built = Inr w1 \<and>
     actual 0 (fold (emit 0) [retry, failed] w1) =
       [(''app.db'', ''WARNING'', ''connection retry''),
        (''app.db'', ''ERROR'', ''connection failed'')] \<and>
     (\<exists>w3. uninstall 0 (fold (emit 0) [retry, failed] w1) = Inr w3 \<and>
        actual 0 w3 = [(''app.db'', ''WARNING'', ''connection retry''),
                       (''app.db'', ''ERROR'', ''connection failed'')])"
proof -
  obtain w1 where i: "install 0 built = Inr w1"
    by (simp add: install_def install_step_def built_def allocate_def startup_def clear_def
        Let_def)
  have e: "actual 0 built = []" "heap built = (\<lambda>_. [])"
    by (simp_all add: actual_def built_def allocate_def startup_def clear_def Let_def)
  from i actual_yields_buffer_in_order [of 0 built "[retry, failed]" w1]
  have a: "actual 0 (fold (emit 0) [retry, failed] w1) =
       [(''app.db'', ''WARNING'', ''connection retry''),
        (''app.db'', ''ERROR'', ''connection failed'')]"
    by (simp add: e entry_def retry_def failed_def)
  obtain w3 where u: "uninstall 0 (fold (emit 0) [retry, failed] w1) = Inr w3"
    using i
    by (auto simp: install_def install_step_def built_def allocate_def startup_def clear_def
        Let_def uninstall_def uninstall_step_def emit_def)
  from u a actual_yields_buffer_in_order [of 0 "fold (emit 0) [retry, failed] w1" "[]" _ w3]
  have "actual 0 w3 = [(''app.db'', ''WARNING'', ''connection retry''),
                       (''app.db'', ''ERROR'', ''connection failed'')]"
    by simp
  with i a u show ?thesis by blast
qed

text \<open>
  C8. \<open>clear()\<close> empties the buffer of the instance, so \<open>actual()\<close> yields nothing and
  \<open>check()\<close> with no expected entry succeeds, and it changes nothing else: not the registry,
  not a logger, not the library's bookkeeping, not the exit hook, not the names, level and
  saved levels and handlers of any instance, not the buffer of another instance. Nothing is
  asked of the state, so this holds installed or not.
\<close>

theorem clear_empties_buffer_only:
  "actual self (clear self w) = [] \<and>
   check self [] (clear self w) = Inr () \<and>
   instances (clear self w) = instances w \<and>
   loggers (clear self w) = loggers w \<and>
   handlers_dict (clear self w) = handlers_dict w \<and>
   handlerList (clear self w) = handlerList w \<and>
   atexit_setup (clear self w) = atexit_setup w \<and>
   atexit_registered (clear self w) = atexit_registered w \<and>
   nobjs (clear self w) = nobjs w \<and>
   heap (clear self w) = heap w \<and>
   names (objs (clear self w) i) = names (objs w i) \<and>
   level (objs (clear self w) i) = level (objs w i) \<and>
   oldlevels (objs (clear self w) i) = oldlevels (objs w i) \<and>
   oldhandlers (objs (clear self w) i) = oldhandlers (objs w i) \<and>
   (i \<noteq> self \<longrightarrow> records (objs (clear self w) i) = records (objs w i))"
  by (simp add: clear_def actual_def check_def compare_def)

theorem clear_empties_buffer_only_witness:
  "actual 0 logged \<noteq> [] \<and> actual 0 (clear 0 logged) = [] \<and>
   check 0 [] (clear 0 logged) = Inr () \<and>
   instances (clear 0 logged) = instances logged \<and>
   (1 \<noteq> (0::nat) \<and> records (objs (clear 0 logged) 1) = records (objs logged 1))"
  using clear_empties_buffer_only [of 0 logged 1] by (simp add: actual_logged)

text \<open>
  C3, as the spec states it: the message of a captured entry is rendered when the entry is
  captured, so that changing an argument object afterwards does not change what is read.
  The code keeps the record object itself and calls \<open>getMessage()\<close> in \<open>actual()\<close>: the list
  is \<open>[1]\<close> when the record is emitted and \<open>[1, 2]\<close> when it is read, and the message read
  is the later one.
\<close>

theorem message_follows_later_mutation:
  "entry (heap holding) got = (''app.db'', ''INFO'', ''got [1]'') \<and>
   actual 0 (emit 0 got holding) = [(''app.db'', ''INFO'', ''got [1]'')] \<and>
   actual 0 (mutate 0 ''[1, 2]'' (emit 0 got holding)) = [(''app.db'', ''INFO'', ''got [1, 2]'')] \<and>
   actual 0 (mutate 0 ''[1, 2]'' (emit 0 got holding)) \<noteq> actual 0 (emit 0 got holding)"
  by (simp add: holding_def mutate_def built_def allocate_def startup_def clear_def emit_def
      actual_def entry_def got_def Let_def)

text \<open>
  C3, amended. The stored entry is the log record itself. Its message is rendered each time
  \<open>actual()\<close> reads it (and \<open>check()\<close> and the textual summary read through \<open>actual()\<close>), from
  the argument objects as they are at that moment. Read before any argument changes, the
  message is the one of capture time; a later change of an object shows in the message
  exactly when the record's rendering depends on that object.
\<close>

theorem message_rendered_when_read:
  "actual self (emit self r w) = actual self w @ [entry (heap w) r] \<and>
   actual self (mutate a v (emit self r w)) =
     map (entry ((heap w)(a := v))) (records (objs w self) @ [r]) \<and>
   check self expected (mutate a v (emit self r w)) =
     compare expected (map (entry ((heap w)(a := v))) (records (objs w self) @ [r])) \<and>
   ((\<forall>x \<in> set (records (objs w self) @ [r]). getMessage x ((heap w)(a := v)) = getMessage x (heap w))
      \<longrightarrow> actual self (mutate a v (emit self r w)) = actual self (emit self r w))"
  by (simp add: actual_def emit_def mutate_def check_def entry_def)

theorem message_rendered_when_read_witness:
  "getMessage retry ((heap holding)(0 := ''[1, 2]'')) = getMessage retry (heap holding) \<and>
   actual 0 (mutate 0 ''[1, 2]'' (emit 0 retry holding)) = actual 0 (emit 0 retry holding) \<and>
   actual 0 (emit 0 retry holding) = [(''app.db'', ''WARNING'', ''connection retry'')]"
proof -
  have r: "records (objs holding 0) = []" "actual 0 holding = []"
    by (simp_all add: holding_def mutate_def built_def allocate_def startup_def clear_def
        actual_def Let_def)
  have h: "\<forall>x \<in> set (records (objs holding 0) @ [retry]).
      getMessage x ((heap holding)(0 := ''[1, 2]'')) = getMessage x (heap holding)"
    by (simp add: r retry_def)
  with message_rendered_when_read [of 0 retry holding 0 "''[1, 2]''"]
  show ?thesis by (simp add: r entry_def retry_def)
qed

text \<open>
  C4. \<open>install()\<close> followed at once by \<open>uninstall()\<close> is to put back the level and the
  handler list each logger of the instance had; the docstring of \<open>uninstall\<close> promises to
  re-instate the handlers removed during installation and to restore the level from before
  it. The code does not do so when a name occurs twice, as in
  \<open>LogCapture(('app.db', 'app.db'), install=False)\<close>: the second pass of \<open>install\<close> saves
  what the first pass has just set, and \<open>uninstall\<close> puts that back. The logger, at level
  40 with one handler of its own before, is left at the capture's level 1 with the capture
  as its only handler.
\<close>

theorem repeated_name_not_restored:
  "loggers doubled (Named ''app.db'') = \<lparr>logger_level = 40, logger_handlers = [Foreign 7]\<rparr> \<and>
   map_sum id (\<lambda>w. loggers w (Named ''app.db'')) (and_then (install 0 doubled) (uninstall 0)) =
     Inr \<lparr>logger_level = 1, logger_handlers = [LogCapture 0]\<rparr>"
  by (simp add: doubled_def configured_def startup_def allocate_def clear_def Let_def
      and_then_def install_def install_step_def uninstall_def uninstall_step_def)

text \<open>
  The defect is confined to names that share a logger: for an instance whose names are
  logger names (\<open>None\<close> or strings) that refer to pairwise different loggers, \<open>install()\<close>
  and then \<open>uninstall()\<close> both return, and afterwards every logger has the level and the
  handler list it had before \<open>install()\<close>.
\<close>

lemma install_uninstall_restores:
  assumes "\<forall>k \<in> set (names (objs w self)). usable k"
    and "distinct (map getLogger (names (objs w self)))"
  shows "\<exists>w1 w2. install self w = Inr w1 \<and> uninstall self w1 = Inr w2 \<and> loggers w2 = loggers w"
  using install_then_uninstall [OF assms] by blast

lemma install_uninstall_restores_example:
  "list_all usable (names (objs single 0)) \<and>
   distinct (map getLogger (names (objs single 0))) \<and>
   loggers single (Named ''app.db'') = \<lparr>logger_level = 40, logger_handlers = [Foreign 7]\<rparr> \<and>
   (\<exists>w1 w2. install 0 single = Inr w1 \<and>
      loggers w1 (Named ''app.db'') = \<lparr>logger_level = 1, logger_handlers = [LogCapture 0]\<rparr> \<and>
      uninstall 0 w1 = Inr w2 \<and> loggers w2 = loggers single)"
proof -
  have n: "names (objs single 0) = [KStr ''app.db'']"
    and c: "loggers single (Named ''app.db'') = \<lparr>logger_level = 40, logger_handlers = [Foreign 7]\<rparr>"
    by (simp_all add: single_def configured_def startup_def allocate_def clear_def Let_def)
  have u: "\<forall>k \<in> set (names (objs single 0)). usable k"
    and d: "distinct (map getLogger (names (objs single 0)))"
    by (simp_all add: n)
  from install_uninstall_restores [OF u d]
  obtain w1 w2 where r: "install 0 single = Inr w1" "uninstall 0 w1 = Inr w2"
    "loggers w2 = loggers single" by blast
  from r(1) have "loggers w1 (Named ''app.db'') = \<lparr>logger_level = 1, logger_handlers = [LogCapture 0]\<rparr>"
    by (auto simp: single_def configured_def startup_def allocate_def clear_def Let_def
        install_def install_step_def)
  with r n c show ?thesis by auto
qed

text \<open>
  C5. \<open>uninstall()\<close> is idempotent. Called on an instance that is not in the registry it
  returns and changes nothing at all. When a call returns, the instance is out of the
  registry, so a second call right after it is that no-op: two calls in a row leave the
  registry, every logger and everything else exactly as one call does. The first call does
  return for every instance that \<open>install\<close> has prepared (each name saved).
\<close>

theorem uninstall_twice_is_once:
  "and_then (uninstall self w) (uninstall self) = uninstall self w \<and>
   (self \<notin> instances w \<longrightarrow> uninstall self w = Inr w) \<and>
   (uninstall self w = Inr w' \<longrightarrow> self \<notin> instances w' \<and> uninstall self w' = Inr w') \<and>
   (restorable w self \<longrightarrow> (\<exists>w'. uninstall self w = Inr w'))"
proof -
  have a: "self \<notin> instances w \<Longrightarrow> uninstall self w = Inr w" for w
    by (simp add: uninstall_def)
  have b: "self \<notin> instances w' \<and> uninstall self w' = Inr w'" if "uninstall self w = Inr w'" for w'
  proof -
    from uninstall_frame [OF that] have "self \<notin> instances w'" by simp
    with a show ?thesis by simp
  qed
  have c: "and_then (uninstall self w) (uninstall self) = uninstall self w"
  proof (cases "uninstall self w")
    case (Inl e)
    then show ?thesis by (simp add: and_then_def)
  next
    case (Inr w')
    with b show ?thesis by (simp add: and_then_def)
  qed
  from a b c uninstall_total [of self w] show ?thesis by blast
qed

theorem uninstall_twice_is_once_witness:
  "\<exists>w1 w'. install 0 single = Inr w1 \<and> 0 \<in> instances w1 \<and> restorable w1 0 \<and>
     uninstall 0 w1 = Inr w' \<and> 0 \<notin> instances w' \<and> uninstall 0 w' = Inr w' \<and>
     and_then (uninstall 0 w1) (uninstall 0) = Inr w'"
proof -
  obtain w1 where i: "install 0 single = Inr w1"
    by (simp add: single_def configured_def startup_def allocate_def clear_def Let_def
        install_def install_step_def)
  from install_frame [OF i, of 0] have m: "0 \<in> instances w1" by simp
  from install_restorable [OF i] have r: "restorable w1 0" .
  with uninstall_twice_is_once [of 0 w1] obtain w' where u: "uninstall 0 w1 = Inr w'" by blast
  with uninstall_twice_is_once [of 0 w1 w'] i m r show ?thesis by auto
qed

text \<open>
  C7, as the spec states it: for every set of registered instances, \<open>uninstall_all()\<close>
  restores each configured channel's saved level and handler list, whatever the order of
  the walk. With two registered captures on the one logger \<open>app.db\<close>, capture 0 having saved
  level 40 and the logger's own handler, the walk 0, 1 leaves that logger at level 1 with
  capture 0 as its handler, which is neither what capture 0 saved nor what the logger had;
  the walk 1, 0 leaves it as it was before the captures. The registry is empty both times.
\<close>

theorem shared_logger_depends_on_order:
  "instances shared = {0, 1} \<and>
   oldlevels (objs shared 0) (KStr ''app.db'') = Some 40 \<and>
   oldhandlers (objs shared 0) (KStr ''app.db'') = Some [Foreign 7] \<and>
   map_sum id (\<lambda>w. (instances w, loggers w (Named ''app.db''))) (uninstall_all [0, 1] shared) =
     Inr ({}, \<lparr>logger_level = 1, logger_handlers = [LogCapture 0]\<rparr>) \<and>
   map_sum id (\<lambda>w. (instances w, loggers w (Named ''app.db''))) (uninstall_all [1, 0] shared) =
     Inr ({}, \<lparr>logger_level = 40, logger_handlers = [Foreign 7]\<rparr>)"
  by (auto simp: shared_def configured_def startup_def init_def allocate_def clear_def
      and_then_def Let_def install_def install_step_def uninstall_def uninstall_step_def)

text \<open>
  C7, amended. For every set of registered instances, each prepared by \<open>install\<close>, and every
  order in which the registry is walked, \<open>uninstall_all()\<close> returns, having called
  \<open>uninstall()\<close> on each of them, and leaves the registry empty. A logger that exactly one
  name of exactly one registered instance refers to ends with the level and handler list
  saved under that name; a logger no registered instance refers to is as before. Of a
  logger that several names or instances share nothing is said.
\<close>

theorem uninstall_all_empties_registry:
  assumes "\<forall>i \<in> instances w. restorable w i" and "set order = instances w"
  shows "\<exists>w'. uninstall_all order w = Inr w' \<and> instances w' = {} \<and>
     (\<forall>i \<in> instances w. \<forall>k \<in> set (names (objs w i)). \<forall>ch lv hs.
        getLogger k = Inr ch \<and> sole_user w i k ch \<and>
        oldlevels (objs w i) k = Some lv \<and> oldhandlers (objs w i) k = Some hs \<longrightarrow>
        loggers w' ch = \<lparr>logger_level = lv, logger_handlers = hs\<rparr>) \<and>
     (\<forall>ch. (\<forall>j \<in> instances w. \<forall>k \<in> set (names (objs w j)). getLogger k \<noteq> Inr ch) \<longrightarrow>
        loggers w' ch = loggers w ch)"
proof -
  from uninstall_all_total [OF assms(1)] obtain w' where u: "uninstall_all order w = Inr w'"
    by blast
  from uninstall_all_frame [OF u] assms(2) have e: "instances w' = {}" by simp
  have r: "loggers w' ch = \<lparr>logger_level = lv, logger_handlers = hs\<rparr>"
    if "i \<in> instances w" "k \<in> set (names (objs w i))" "getLogger k = Inr ch"
      "sole_user w i k ch" "oldlevels (objs w i) k = Some lv" "oldhandlers (objs w i) k = Some hs"
    for i k ch lv hs
    using uninstall_all_restored [OF u _ that] that(1) assms(2) by simp
  have n: "loggers w' ch = loggers w ch"
    if "\<forall>j \<in> instances w. \<forall>k \<in> set (names (objs w j)). getLogger k \<noteq> Inr ch" for ch
    using uninstall_all_untouched [OF u, of ch] that by blast
  from u e r n show ?thesis by blast
qed

theorem uninstall_all_empties_registry_witness:
  "set [1, 0] = instances both \<and> restorable both 0 \<and> restorable both 1 \<and>
   sole_user both 0 (KStr ''app.db'') (Named ''app.db'') \<and>
   sole_user both 1 (KStr ''web'') (Named ''web'') \<and>
   (\<exists>w'. uninstall_all [1, 0] both = Inr w' \<and> instances w' = {} \<and>
      loggers w' (Named ''app.db'') = \<lparr>logger_level = 40, logger_handlers = [Foreign 7]\<rparr> \<and>
      loggers w' (Named ''web'') = \<lparr>logger_level = 0, logger_handlers = []\<rparr> \<and>
      loggers w' Root = loggers both Root)"
proof -
  have s: "set [1, 0] = instances both" by (auto simp: both_facts)
  have r: "restorable both 0" "restorable both 1"
    by (simp_all add: restorable_def both_facts)
  then have ra: "\<forall>i \<in> instances both. restorable both i" by (simp add: both_facts)
  have so: "sole_user both 0 (KStr ''app.db'') (Named ''app.db'')"
    "sole_user both 1 (KStr ''web'') (Named ''web'')"
    by (simp_all add: sole_user_def both_facts)
  from uninstall_all_empties_registry [OF ra s] obtain w' where
    u: "uninstall_all [1, 0] both = Inr w'" "instances w' = {}"
    and a: "\<And>i k ch lv hs. i \<in> instances both \<Longrightarrow> k \<in> set (names (objs both i)) \<Longrightarrow>
        getLogger k = Inr ch \<Longrightarrow> sole_user both i k ch \<Longrightarrow>
        oldlevels (objs both i) k = Some lv \<Longrightarrow> oldhandlers (objs both i) k = Some hs \<Longrightarrow>
        loggers w' ch = \<lparr>logger_level = lv, logger_handlers = hs\<rparr>"
    and b: "\<And>ch. (\<forall>j \<in> instances both. \<forall>k \<in> set (names (objs both j)). getLogger k \<noteq> Inr ch) \<Longrightarrow>
        loggers w' ch = loggers both ch"
    by blast
  have "loggers w' (Named ''app.db'') = \<lparr>logger_level = 40, logger_handlers = [Foreign 7]\<rparr>"
    using so(1) by (intro a [of 0 "KStr ''app.db''"]) (simp_all add: both_facts)
  moreover have "loggers w' (Named ''web'') = \<lparr>logger_level = 0, logger_handlers = []\<rparr>"
    using so(2) by (intro a [of 1 "KStr ''web''"]) (simp_all add: both_facts)
  moreover have "loggers w' Root = loggers both Root"
    by (rule b) (simp add: both_facts)
  ultimately show ?thesis using s r so u by blast
qed

text \<open>
  C9, as the spec states it: for every instance, \<open>__enter__\<close> returns the instance already
  installed. \<open>__enter__\<close> installs nothing, so an instance built with \<open>install=False\<close>
  enters its block outside the registry, and the root logger has no handler.
\<close>

theorem entered_without_install:
  "map_sum id
     (\<lambda>(i, w). (fst (enter i w) = i, i \<in> instances (snd (enter i w)),
                loggers (snd (enter i w)) Root))
     (init (Other KNone) False 1 startup) =
   Inr (True, False, \<lparr>logger_level = 30, logger_handlers = []\<rparr>)"
  by (simp add: init_def allocate_def clear_def startup_def enter_def Let_def)

text \<open>
  C9, amended. \<open>__enter__\<close> returns the instance itself and changes nothing: the instance
  is installed on entry exactly when it was before, as it is after construction with
  \<open>install=True\<close> (the default; it is then in the registry, and each of its loggers has the
  capture's level and the capture as only handler), while construction with
  \<open>install=False\<close> leaves the registry and every logger as they were. \<open>__exit__\<close> calls \<open>uninstall()\<close> whatever the exception it is given, so
  a \<open>with\<close> block ends with \<open>uninstall()\<close> on its normal and on its failing path, and
  passes the block's exception on. For an instance installed at construction on names that
  refer to different loggers, and a block at whose end the instance is still in the registry
  with the names and the saved levels and handlers it had on entry (the block has not
  called \<open>install()\<close> or \<open>uninstall()\<close> on it), the exit returns, takes the instance out of
  the registry and gives each of its loggers the configuration it had before the
  construction.
\<close>

theorem scoped_resource:
  "enter self w = (self, w) \<and>
   exit self exc w = uninstall self w \<and>
   with_block self body w =
     and_then (uninstall self (snd (body self w))) (\<lambda>w2. Inr (fst (body self w), w2)) \<and>
   (init a True lvl w0 = Inr (i, w1) \<longrightarrow>
      i \<in> instances w1 \<and>
      (\<forall>k \<in> set (init_names a). \<forall>ch. getLogger k = Inr ch \<longrightarrow>
         loggers w1 ch = \<lparr>logger_level = lvl, logger_handlers = [LogCapture i]\<rparr>)) \<and>
   (init a False lvl w0 = Inr (i, w1) \<longrightarrow>
      instances w1 = instances w0 \<and> loggers w1 = loggers w0) \<and>
   (init a True lvl w0 = Inr (i, w1) \<and> distinct (map getLogger (init_names a)) \<and>
    i \<in> instances wb \<and> names (objs wb i) = names (objs w1 i) \<and>
    oldlevels (objs wb i) = oldlevels (objs w1 i) \<and>
    oldhandlers (objs wb i) = oldhandlers (objs w1 i) \<longrightarrow>
      (\<exists>w2. exit i exc wb = Inr w2 \<and> i \<notin> instances w2 \<and>
         (\<forall>k \<in> set (init_names a). \<forall>ch. getLogger k = Inr ch \<longrightarrow> loggers w2 ch = loggers w0 ch)))"
proof -
  have 1: "enter self w = (self, w)" by (simp add: enter_def)
  have 2: "exit self exc w = uninstall self w" by (simp add: exit_def)
  have 3: "with_block self body w =
     and_then (uninstall self (snd (body self w))) (\<lambda>w2. Inr (fst (body self w), w2))"
    by (cases "body self w") (simp add: with_block_def enter_def exit_def and_then_def)
  have 4: "i \<in> instances w1 \<and>
      (\<forall>k \<in> set (init_names a). \<forall>ch. getLogger k = Inr ch \<longrightarrow>
         loggers w1 ch = \<lparr>logger_level = lvl, logger_handlers = [LogCapture i]\<rparr>)"
    if t: "init a True lvl w0 = Inr (i, w1)"
  proof -
    from t obtain wa where al: "allocate a lvl w0 = (i, wa)" and ins: "install i wa = Inr w1"
      by (rule init_installed)
    from allocate_effect [OF al]
    have o: "names (objs wa i) = init_names a" "level (objs wa i) = lvl" by simp_all
    from install_frame [OF ins] have "i \<in> instances w1" by simp
    moreover have "loggers w1 ch = \<lparr>logger_level = lvl, logger_handlers = [LogCapture i]\<rparr>"
      if "k \<in> set (init_names a)" "getLogger k = Inr ch" for k ch
      using install_swapped [OF ins, of k ch] that o by simp
    ultimately show ?thesis by blast
  qed
  have 5: "instances w1 = instances w0 \<and> loggers w1 = loggers w0"
    if f: "init a False lvl w0 = Inr (i, w1)"
  proof -
    from f have "allocate a lvl w0 = (i, w1)" by (simp add: init_def split: prod.splits)
    from allocate_effect [OF this] show ?thesis by simp
  qed
  have 6: "\<exists>w2. exit i exc wb = Inr w2 \<and> i \<notin> instances w2 \<and>
         (\<forall>k \<in> set (init_names a). \<forall>ch. getLogger k = Inr ch \<longrightarrow> loggers w2 ch = loggers w0 ch)"
    if t: "init a True lvl w0 = Inr (i, w1)" and d: "distinct (map getLogger (init_names a))"
      and m: "i \<in> instances wb" and same: "names (objs wb i) = names (objs w1 i)"
        "oldlevels (objs wb i) = oldlevels (objs w1 i)"
        "oldhandlers (objs wb i) = oldhandlers (objs w1 i)"
  proof -
    from t obtain wa where al: "allocate a lvl w0 = (i, wa)" and ins: "install i wa = Inr w1"
      by (rule init_installed)
    from allocate_effect [OF al]
    have o: "names (objs wa i) = init_names a" "loggers wa = loggers w0" by simp_all
    from install_frame [OF ins, of i] o have n1: "names (objs w1 i) = init_names a" by simp
    from install_restorable [OF ins] same have "restorable wb i" by (simp add: restorable_def)
    with uninstall_total [of i wb] obtain w2 where u: "uninstall i wb = Inr w2" by blast
    from uninstall_frame [OF u] have out: "i \<notin> instances w2" by simp
    have "loggers w2 ch = loggers w0 ch" if k: "k \<in> set (init_names a)" "getLogger k = Inr ch"
      for k ch
    proof -
      from d have "inj_on getLogger (set (init_names a))" by (simp add: distinct_map)
      with k have sole: "\<forall>k' \<in> set (names (objs wb i)). getLogger k' = Inr ch \<longrightarrow> k' = k"
        unfolding same(1) n1 by (metis inj_onD)
      from install_saved [OF ins, of k ch] d k o same
      have sv: "oldlevels (objs wb i) k = Some (logger_level (loggers w0 ch))"
        "oldhandlers (objs wb i) k = Some (logger_handlers (loggers w0 ch))" by simp_all
      from k same n1 have kin: "k \<in> set (names (objs wb i))" by simp
      from uninstall_restored [OF u m kin k(2) sole sv] show ?thesis by simp
    qed
    with u out show ?thesis by (auto simp: exit_def)
  qed
  from 1 2 3 4 5 6 show ?thesis by blast
qed


theorem scoped_resource_witness:
  "\<exists>w1. init (Other (KStr ''app.db'')) True 1 configured = Inr (0, w1) \<and>
     distinct (map getLogger (init_names (Other (KStr ''app.db'')))) \<and>
     fst (enter 0 w1) = 0 \<and> 0 \<in> instances (snd (enter 0 w1)) \<and>
     loggers w1 (Named ''app.db'') = \<lparr>logger_level = 1, logger_handlers = [LogCapture 0]\<rparr> \<and>
     (\<exists>w2. with_block 0 failing_block w1 = Inr (Some ''ValueError'', w2) \<and>
        0 \<notin> instances w2 \<and>
        loggers w2 (Named ''app.db'') = \<lparr>logger_level = 40, logger_handlers = [Foreign 7]\<rparr>)"
proof -
  obtain w1 where i: "init (Other (KStr ''app.db'')) True 1 configured = Inr (0, w1)"
    by (simp add: init_def allocate_def clear_def configured_def startup_def Let_def
        install_def install_step_def)
  have d: "distinct (map getLogger (init_names (Other (KStr ''app.db''))))" by simp
  let ?wb = "snd (failing_block 0 w1)"
  note t = scoped_resource [where self = 0 and w = w1 and exc = "Some ''ValueError''"
      and body = failing_block and a = "Other (KStr ''app.db'')" and lvl = 1
      and ?w0.0 = configured and i = 0 and ?w1.0 = w1 and wb = ?wb]
  from t i have m: "0 \<in> instances w1"
    and sw: "loggers w1 (Named ''app.db'') = \<lparr>logger_level = 1, logger_handlers = [LogCapture 0]\<rparr>"
    by simp_all
  have b: "0 \<in> instances ?wb" "names (objs ?wb 0) = names (objs w1 0)"
    "oldlevels (objs ?wb 0) = oldlevels (objs w1 0)"
    "oldhandlers (objs ?wb 0) = oldhandlers (objs w1 0)"
    using m by (simp_all add: failing_block_def emit_def)
  from t i d b obtain w2 where e: "exit 0 (Some ''ValueError'') ?wb = Inr w2"
    "0 \<notin> instances w2" "loggers w2 (Named ''app.db'') = loggers configured (Named ''app.db'')"
    by auto
  from t e have "with_block 0 failing_block w1 = Inr (Some ''ValueError'', w2)"
    by (simp add: and_then_def failing_block_def exit_def)
  moreover from e have "loggers w2 (Named ''app.db'') = \<lparr>logger_level = 40, logger_handlers = [Foreign 7]\<rparr>"
    by (simp add: configured_def)
  ultimately show ?thesis using i d m sw e t by auto
qed

text \<open>
  C10. The constructor keeps a tuple of names as it is and wraps anything else into a
  one-element tuple. So no argument (\<open>None\<close>) gives the single key \<open>None\<close>, the root logger;
  a list of names becomes one key, the whole list, and not one key per name (no logger is
  named by a list: installing such an instance raises \<open>TypeError\<close>); and an instance with
  more than one name was given a tuple.
\<close>

theorem names_wrapped_unless_tuple:
  "init_names (Other k) = [k] \<and> init_names (Tuple ks) = ks \<and>
   (init a inst lvl w = Inr (i, w') \<longrightarrow> names (objs w' i) = init_names a) \<and>
   (init (Other KNone) inst lvl w = Inr (i, w') \<longrightarrow>
      names (objs w' i) = [KNone] \<and> map getLogger (names (objs w' i)) = [Inr Root]) \<and>
   (\<exists>v. init (Other (KList l)) False lvl w = Inr (nobjs w, v) \<and>
      names (objs v (nobjs w)) = [KList l]) \<and>
   init (Other (KList l)) True lvl w = Inl TypeError \<and>
   (init a inst lvl w = Inr (i, w') \<and> 1 < length (names (objs w' i)) \<longrightarrow> (\<exists>ks. a = Tuple ks))"
proof -
  have 1: "names (objs w' i) = init_names a" if "init a inst lvl w = Inr (i, w')" for a i w'
    using init_names_kept [OF that] by blast
  have 2: "\<exists>v. init (Other (KList l)) False lvl w = Inr (nobjs w, v) \<and>
      names (objs v (nobjs w)) = [KList l]"
    by (simp add: init_def allocate_def clear_def Let_def)
  have 3: "init (Other (KList l)) True lvl w = Inl TypeError"
    by (simp add: init_def allocate_def clear_def Let_def install_def install_step_def)
  have 4: "\<exists>ks. a = Tuple ks" if "init a inst lvl w = Inr (i, w')" "1 < length (names (objs w' i))"
    using 1 [OF that(1)] that(2) by (cases a) simp_all
  have 5: "names (objs w' i) = [KNone] \<and> map getLogger (names (objs w' i)) = [Inr Root]"
    if "init (Other KNone) inst lvl w = Inr (i, w')"
    using 1 [OF that] by simp
  have 0: "init_names (Other k) = [k] \<and> init_names (Tuple ks) = ks" by simp
  from 0 1 2 3 4 5 show ?thesis by blast
qed

theorem names_wrapped_unless_tuple_witness:
  "(\<exists>w'. init (Other KNone) False 1 startup = Inr (0, w') \<and> names (objs w' 0) = [KNone]) \<and>
   (\<exists>w'. init (Other (KList [''app.db'', ''web''])) False 1 startup = Inr (0, w') \<and>
      names (objs w' 0) = [KList [''app.db'', ''web'']]) \<and>
   (\<exists>w'. init (Tuple [KStr ''app.db'', KStr ''web'']) True 1 startup = Inr (0, w') \<and>
      names (objs w' 0) = [KStr ''app.db'', KStr ''web''] \<and>
      1 < length (names (objs w' 0)))"
proof -
  obtain a where a: "init (Other KNone) False 1 startup = Inr (0, a)"
    by (simp add: init_def allocate_def clear_def startup_def Let_def)
  obtain b where b: "init (Other (KList [''app.db'', ''web''])) False 1 startup = Inr (0, b)"
    by (simp add: init_def allocate_def clear_def startup_def Let_def)
  obtain c where c: "init (Tuple [KStr ''app.db'', KStr ''web'']) True 1 startup = Inr (0, c)"
    by (simp add: init_def allocate_def clear_def startup_def Let_def install_def
        install_step_def)
  from a names_wrapped_unless_tuple [where a = "Other KNone" and inst = False and lvl = 1
      and w = startup and i = 0 and w' = a]
  have "names (objs a 0) = [KNone]" by simp
  moreover from b
    names_wrapped_unless_tuple [where a = "Other (KList [''app.db'', ''web''])" and inst = False
      and lvl = 1 and w = startup and i = 0 and w' = b]
  have "names (objs b 0) = [KList [''app.db'', ''web'']]" by simp
  moreover from c
    names_wrapped_unless_tuple [where a = "Tuple [KStr ''app.db'', KStr ''web'']" and inst = True
      and lvl = 1 and w = startup and i = 0 and w' = c]
  have "names (objs c 0) = [KStr ''app.db'', KStr ''web'']" by simp
  ultimately show ?thesis using a b c by simp
qed

text \<open>
  C6, as the spec states it: after any sequence of constructions, \<open>install()\<close>,
  \<open>uninstall()\<close>, \<open>uninstall_all()\<close>, \<open>clear()\<close> and block entries and exits, an instance is in
  the registry exactly when it is swapped into its logging channels and they have not been
  restored. Four sequences where the two part. A capture that is installed, installed again
  and then uninstalled is out of the registry and still the handler list of its logger
  (the second \<open>install\<close> saved the capture itself). Of two captures installed on one
  logger, the first is in the registry and the second is the handler. A capture built on no
  name at all is in the registry and swapped into nothing. A capture with one name twice
  is, after \<open>install()\<close> and \<open>uninstall()\<close>, out of the registry and still the handler.
\<close>

theorem registry_differs_from_swapped_in:
  "map_sum id (\<lambda>w. (1 \<in> instances w, swapped_in w 1)) (run reinstalling configured) =
     Inr (False, True) \<and>
   0 \<in> instances shared \<and> \<not> swapped_in shared 0 \<and>
   0 \<in> instances nameless \<and> \<not> swapped_in nameless 0 \<and>
   map_sum id (\<lambda>w. (0 \<in> instances w, swapped_in w 0))
     (and_then (install 0 doubled) (uninstall 0)) = Inr (False, True)"
  by (simp add: reinstalling_def session_def shared_def nameless_def doubled_def configured_def
      startup_def
      init_def allocate_def clear_def emit_def and_then_def Let_def install_def install_step_def
      uninstall_def uninstall_step_def swapped_in_def)


text \<open>
  C6, amended. Under orderly use, started where the registry is empty and no capture is on
  a logger: every instance is built on at least one name, all of them logger names that
  refer to different loggers; \<open>install()\<close> is called only on an instance that is not in the
  registry and whose loggers no registered instance uses (the same holds for a
  construction that installs); and \<open>uninstall_all()\<close> walks the registry as it is. Then
  every call returns, and after any such sequence of constructions, \<open>install()\<close>,
  \<open>uninstall()\<close>, \<open>uninstall_all()\<close>, \<open>clear()\<close>, received records and block entries and exits
  an instance is in the registry exactly when it is swapped into its logging channels.
\<close>

theorem registry_iff_swapped_in:
  assumes "instances w0 = {}"
    and "\<forall>ch i. LogCapture i \<notin> set (logger_handlers (loggers w0 ch))"
    and "\<forall>i < nobjs w0. well_named (names (objs w0 i))"
    and "orderly_run cs w0"
  shows "\<exists>w. run cs w0 = Inr w \<and> (\<forall>i. i \<in> instances w \<longleftrightarrow> swapped_in w i)"
proof -
  from tidy_start [OF assms(1,2,3)] have "tidy w0" .
  from run_tidy [OF this assms(4)] obtain w where r: "run cs w0 = Inr w" and t: "tidy w"
    by blast
  from t have "i \<in> instances w \<longleftrightarrow> swapped_in w i" for i
    using tidy_registered_swapped [of w i] tidy_swapped_registered [of w i] by blast
  with r show ?thesis by blast
qed

theorem registry_iff_swapped_in_witness:
  "instances configured = {} \<and> nobjs configured = 0 \<and> orderly_run session configured \<and>
   (\<exists>w. run session configured = Inr w \<and> instances w = {1} \<and>
      swapped_in w 1 \<and> \<not> swapped_in w 0 \<and>
      loggers w (Named ''web'') = \<lparr>logger_level = 1, logger_handlers = [LogCapture 1]\<rparr> \<and>
      loggers w (Named ''app.db'') = \<lparr>logger_level = 40, logger_handlers = [Foreign 7]\<rparr>)"
proof -
  have e: "instances configured = {}" "nobjs configured = 0"
    by (simp_all add: configured_def startup_def)
  have c: "\<forall>ch i. LogCapture i \<notin> set (logger_handlers (loggers configured ch))"
    by (simp add: configured_def startup_def)
  have n: "\<forall>i < nobjs configured. well_named (names (objs configured i))" by (simp add: e)
  from registry_iff_swapped_in [OF e(1) c n session_orderly]
  obtain w where r: "run session configured = Inr w"
    and iff: "\<And>i. i \<in> instances w \<longleftrightarrow> swapped_in w i" by blast
  from session_result r
  have v: "instances w = {1}"
    "loggers w (Named ''web'') = \<lparr>logger_level = 1, logger_handlers = [LogCapture 1]\<rparr>"
    "loggers w (Named ''app.db'') = \<lparr>logger_level = 40, logger_handlers = [Foreign 7]\<rparr>"
    by simp_all
  from v(1) iff [of 1] iff [of 0] have "swapped_in w 1" "\<not> swapped_in w 0" by simp_all
  with e session_orderly r v show ?thesis by blast
qed

end
